theory Spec2Isabelle
  imports Main "HOL-Library.Word"
begin

section \<open>Bytes, errors and Python's struct module\<close>

text \<open>
  The Hive client (\<^verbatim>\<open>zepu/distributed.py\<close>) builds every frame with
  \<^verbatim>\<open>struct.pack\<close> and a format string without a byte-order prefix, which is
  Python's native mode: native byte order, native sizes and native alignment, with
  padding before a field but none after the last one. The model fixes the host the
  worker protocol is written for, a little-endian machine with natural alignment
  (x86-64, AArch64): \<^verbatim>\<open>B\<close> is 1 byte, \<^verbatim>\<open>I\<close> is 4 bytes aligned to 4,
  \<^verbatim>\<open>Q\<close> is 8 bytes aligned to 8, \<^verbatim>\<open>x\<close> is one zero byte. Python integers
  are unbounded, so they are \<open>int\<close>; a value outside the field's range makes
  \<^verbatim>\<open>struct.pack\<close> raise \<^verbatim>\<open>struct.error\<close>.
\<close>

type_synonym byte = "8 word"

datatype error =
    IndexError string
  | RuntimeError string
  | ConnectionError string
  | StructError
  | ValueError
  | ZeroDivisionError

datatype fmt = Fmt_B | Fmt_I | Fmt_Q | Fmt_x

fun fmt_size :: "fmt \<Rightarrow> nat" where
  "fmt_size Fmt_B = 1"
| "fmt_size Fmt_I = 4"
| "fmt_size Fmt_Q = 8"
| "fmt_size Fmt_x = 1"

fun fmt_align :: "fmt \<Rightarrow> nat" where
  "fmt_align Fmt_B = 1"
| "fmt_align Fmt_I = 4"
| "fmt_align Fmt_Q = 8"
| "fmt_align Fmt_x = 1"

text \<open>The number of zero bytes that bring offset \<open>n\<close> to a multiple of \<open>a\<close>.\<close>

definition pad_to :: "nat \<Rightarrow> nat \<Rightarrow> nat" where
  "pad_to a n = (a - n mod a) mod a"

text \<open>The \<open>k\<close> little-endian bytes of \<open>v\<close>, and the value of little-endian bytes.\<close>

primrec le_bytes :: "nat \<Rightarrow> int \<Rightarrow> byte list" where
  "le_bytes 0 v = []"
| "le_bytes (Suc k) v = word_of_int (v mod 256) # le_bytes k (v div 256)"

fun from_le :: "byte list \<Rightarrow> int" where
  "from_le [] = 0"
| "from_le (b # bs) = uint b + 256 * from_le bs"

abbreviation u32le :: "int \<Rightarrow> byte list" where
  "u32le v \<equiv> le_bytes 4 v"

abbreviation u64le :: "int \<Rightarrow> byte list" where
  "u64le v \<equiv> le_bytes 8 v"

text \<open>
  \<^verbatim>\<open>struct.pack(fmt, *values)\<close>: the fields in order, each after its alignment
  padding. Too few or too many values, or a value out of range, is
  \<^verbatim>\<open>struct.error\<close>.
\<close>

fun pack_loop :: "fmt list \<Rightarrow> int list \<Rightarrow> byte list \<Rightarrow> error + byte list" where
  "pack_loop [] [] acc = Inr acc"
| "pack_loop [] (v # vs) acc = Inl StructError"
| "pack_loop (Fmt_x # fs) vs acc = pack_loop fs vs (acc @ [0])"
| "pack_loop (f # fs) [] acc = Inl StructError"
| "pack_loop (f # fs) (v # vs) acc =
     (if 0 \<le> v \<and> v < 2 ^ (8 * fmt_size f)
      then pack_loop fs vs
             (acc @ replicate (pad_to (fmt_align f) (length acc)) 0 @ le_bytes (fmt_size f) v)
      else Inl StructError)"

definition pack :: "fmt list \<Rightarrow> int list \<Rightarrow> error + byte list" where
  "pack fs vs = pack_loop fs vs []"

text \<open>
  \<^verbatim>\<open>struct.calcsize\<close> and \<^verbatim>\<open>struct.unpack(fmt, buffer)\<close>: the buffer must have
  exactly the size of the format, else \<^verbatim>\<open>struct.error\<close>.
\<close>

fun calcsize_loop :: "fmt list \<Rightarrow> nat \<Rightarrow> nat" where
  "calcsize_loop [] n = n"
| "calcsize_loop (f # fs) n =
     calcsize_loop fs (n + pad_to (fmt_align f) n + fmt_size f)"

definition calcsize :: "fmt list \<Rightarrow> nat" where
  "calcsize fs = calcsize_loop fs 0"

fun unpack_loop :: "fmt list \<Rightarrow> byte list \<Rightarrow> nat \<Rightarrow> int list" where
  "unpack_loop [] bs n = []"
| "unpack_loop (Fmt_x # fs) bs n = unpack_loop fs bs (Suc n)"
| "unpack_loop (f # fs) bs n =
     (let off = n + pad_to (fmt_align f) n
      in from_le (take (fmt_size f) (drop off bs)) # unpack_loop fs bs (off + fmt_size f))"

definition unpack :: "fmt list \<Rightarrow> byte list \<Rightarrow> error + int list" where
  "unpack fs bs =
     (if length bs = calcsize fs then Inr (unpack_loop fs bs 0) else Inl StructError)"

text \<open>Python's \<^verbatim>\<open>str\<close> of an integer, used by the f-string of the remote error.\<close>

definition digit_char :: "nat \<Rightarrow> char" where
  "digit_char d = ''0123456789'' ! d"

fun str_nat :: "nat \<Rightarrow> string" where
  "str_nat n = (if n < 10 then [digit_char n] else str_nat (n div 10) @ [digit_char (n mod 10)])"

definition str_int :: "int \<Rightarrow> string" where
  "str_int i = (if i < 0 then CHR ''-'' # str_nat (nat (- i)) else str_nat (nat i))"

text \<open>Reading a decimal numeral back (Python's \<^verbatim>\<open>int(s)\<close> on digits).\<close>

definition digit_val :: "char \<Rightarrow> nat" where
  "digit_val ch = of_char ch - 48"

definition parse_nat :: "string \<Rightarrow> nat" where
  "parse_nat s = foldl (\<lambda>acc ch. 10 * acc + digit_val ch) 0 s"

text \<open>
  Python list indexing \<^verbatim>\<open>xs[i]\<close>: a negative index counts from the end, an index
  outside \<open>[-len, len)\<close> raises \<^verbatim>\<open>IndexError\<close>.
\<close>

definition py_index :: "'a list \<Rightarrow> int \<Rightarrow> error + 'a" where
  "py_index xs i =
     (if 0 \<le> i \<and> i < int (length xs) then Inr (xs ! nat i)
      else if i < 0 \<and> - int (length xs) \<le> i then Inr (xs ! nat (int (length xs) + i))
      else Inl (IndexError ''list index out of range''))"

section \<open>Sockets\<close>

text \<open>
  A socket is a handle into the network state. The network state holds, for each
  handle, the packets still to be delivered to the client (an empty packet, or the end
  of the list, is the peer closing the connection) and the trace of every
  \<^verbatim>\<open>sendall\<close> and \<^verbatim>\<open>recv\<close> call in program order. \<^verbatim>\<open>sendall\<close> is taken to
  complete; \<^verbatim>\<open>recv(k)\<close> returns at most \<open>k\<close> bytes of the next packet and leaves the
  rest queued.
\<close>

datatype event = Sent nat "byte list" | Recvd nat "byte list"

record net =
  inbox :: "nat \<Rightarrow> byte list list"
  trace :: "event list"

definition sock_sendall :: "nat \<Rightarrow> byte list \<Rightarrow> net \<Rightarrow> net" where
  "sock_sendall h bs w = w\<lparr>trace := trace w @ [Sent h bs]\<rparr>"

definition sock_recv :: "nat \<Rightarrow> nat \<Rightarrow> net \<Rightarrow> byte list \<times> net" where
  "sock_recv h k w =
     (case inbox w h of
        [] \<Rightarrow> ([], w\<lparr>trace := trace w @ [Recvd h []]\<rparr>)
      | p # ps \<Rightarrow>
          (take k p,
           w\<lparr>inbox := (inbox w)(h := (if drop k p = [] then ps else drop k p # ps)),
             trace := trace w @ [Recvd h (take k p)]\<rparr>))"

section \<open>The Hive client: framing\<close>

definition CMD_PING :: int where "CMD_PING = 0"
definition CMD_SPAWN_VCPU :: int where "CMD_SPAWN_VCPU = 1"
definition CMD_LOAD_PROG :: int where "CMD_LOAD_PROG = 2"
definition CMD_RUN_CLUSTER :: int where "CMD_RUN_CLUSTER = 3"
definition CMD_READ_MEM :: int where "CMD_READ_MEM = 4"
definition CMD_WRITE_MEM :: int where "CMD_WRITE_MEM = 5"
definition CMD_GET_STATS :: int where "CMD_GET_STATS = 6"

text \<open>
  \<^verbatim>\<open>DistributedCluster._send_cmd\<close>: header \<^verbatim>\<open>struct.pack('IIII', magic, cmd,
  req_id, len(payload))\<close>, then one \<^verbatim>\<open>sendall\<close> of header and payload.
\<close>

definition send_cmd :: "nat \<Rightarrow> int \<Rightarrow> byte list \<Rightarrow> net \<Rightarrow> (error + unit) \<times> net" where
  "send_cmd s cmd payload w =
     (let magic = 0x56435055; req_id = 0
      in case pack [Fmt_I, Fmt_I, Fmt_I, Fmt_I] [magic, cmd, req_id, int (length payload)] of
           Inl e \<Rightarrow> (Inl e, w)
         | Inr header \<Rightarrow> (Inr (), sock_sendall s (header @ payload) w))"

text \<open>
  \<^verbatim>\<open>DistributedCluster._recv_all\<close>: call \<^verbatim>\<open>recv\<close> until \<open>n\<close> bytes are there;
  an empty packet raises \<^verbatim>\<open>ConnectionError("Socket closed")\<close>.
\<close>

function recv_all_loop :: "nat \<Rightarrow> nat \<Rightarrow> byte list \<Rightarrow> net \<Rightarrow> (error + byte list) \<times> net" where
  "recv_all_loop s n data w =
     (if length data < n
      then (case sock_recv s (n - length data) w of
              (packet, w') \<Rightarrow>
                if packet = [] then (Inl (ConnectionError ''Socket closed''), w')
                else recv_all_loop s n (data @ packet) w')
      else (Inr data, w))"
  by pat_completeness auto
termination
proof (relation "measure (\<lambda>(s, n, data, w). n - length data)")
  fix s n :: nat and data packet :: "byte list" and w w' :: net
  assume "length data < n" and "packet \<noteq> []"
  then show "((s, n, data @ packet, w'), (s, n, data, w))
          \<in> measure (\<lambda>(s, n, data, w). n - length data)"
    by (cases packet) simp_all
qed simp

definition recv_all :: "nat \<Rightarrow> nat \<Rightarrow> net \<Rightarrow> (error + byte list) \<times> net" where
  "recv_all s n w = recv_all_loop s n [] w"

text \<open>
  \<^verbatim>\<open>DistributedCluster._recv_resp\<close>: the 12-byte header
  \<^verbatim>\<open>struct.unpack('III', ...)\<close>, then the status check, then the payload.
  The result is \<open>None\<close> for Python's \<^verbatim>\<open>None\<close>.
\<close>

definition recv_resp :: "nat \<Rightarrow> net \<Rightarrow> (error + byte list option) \<times> net" where
  "recv_resp s w =
     (case recv_all s 12 w of
        (Inl e, w1) \<Rightarrow> (Inl e, w1)
      | (Inr header_data, w1) \<Rightarrow>
          (case unpack [Fmt_I, Fmt_I, Fmt_I] header_data of
             Inl e \<Rightarrow> (Inl e, w1)
           | Inr [status, req_id, len] \<Rightarrow>
               if status \<noteq> 200
               then (Inl (RuntimeError (''Remote Error: '' @ str_int status)), w1)
               else if len > 0
               then (case recv_all s (nat len) w1 of
                       (Inl e, w2) \<Rightarrow> (Inl e, w2)
                     | (Inr d, w2) \<Rightarrow> (Inr (Some d), w2))
               else (Inr None, w1)
           | Inr _ \<Rightarrow> (Inl ValueError, w1)))"

section \<open>The Hive client: the cluster\<close>

text \<open>
  A node record is the dictionary \<^verbatim>\<open>{'sock', 'addr', 'vcpu_count'}\<close> that
  \<^verbatim>\<open>DistributedCluster.__init__\<close> appends for each node it could connect to; the
  constructor raises when no node is left, so a cluster has at least one node.
  \<^verbatim>\<open>vcpu_map\<close> maps a global vCPU id (the position) to
  \<open>(node_index, local_vcpu_id)\<close>; both come from \<^verbatim>\<open>enumerate\<close> and
  \<^verbatim>\<open>range\<close> and are natural numbers. The \<^verbatim>\<open>print\<close> calls are left out.
\<close>

record node =
  sock :: nat
  addr :: string
  vcpu_count :: int

record cluster =
  nodes :: "node list"
  vcpu_map :: "(nat \<times> nat) list"

text \<open>
  \<^verbatim>\<open>DistributedCluster.spawn\<close>. The loop runs over the node indices; a node whose
  count is 0 is skipped; the mapping and the node's counter are updated only after the
  node has acknowledged. The local variable \<^verbatim>\<open>global_id\<close> is written and never
  read.
\<close>

function spawn_loop ::
  "int \<Rightarrow> int \<Rightarrow> int \<Rightarrow> nat \<Rightarrow> cluster \<Rightarrow> net \<Rightarrow> (error + unit) \<times> cluster \<times> net" where
  "spawn_loop count_per_node remainder memory_size_kb i c w =
     (if i < length (nodes c)
      then
        (let node = nodes c ! i;
             count = count_per_node + (if int i < remainder then 1 else 0)
         in if count = 0
            then spawn_loop count_per_node remainder memory_size_kb (Suc i) c w
            else
              (case pack [Fmt_I, Fmt_I] [count, memory_size_kb] of
                 Inl e \<Rightarrow> (Inl e, c, w)
               | Inr payload \<Rightarrow>
                   (case send_cmd (sock node) CMD_SPAWN_VCPU payload w of
                      (Inl e, w1) \<Rightarrow> (Inl e, c, w1)
                    | (Inr u, w1) \<Rightarrow>
                        (case recv_resp (sock node) w1 of
                           (Inl e, w2) \<Rightarrow> (Inl e, c, w2)
                         | (Inr ack, w2) \<Rightarrow>
                             spawn_loop count_per_node remainder memory_size_kb (Suc i)
                               (c\<lparr>vcpu_map := vcpu_map c @ map (Pair i) [0..<nat count],
                                  nodes := (nodes c)
                                    [i := node\<lparr>vcpu_count := vcpu_count node + count\<rparr>]\<rparr>)
                               w2))))
      else (Inr (), c, w))"
  by pat_completeness auto
termination
  by (relation "measure (\<lambda>(cpn, r, m, i, c, w). length (nodes c) - i)") auto

definition spawn :: "int \<Rightarrow> int \<Rightarrow> cluster \<Rightarrow> net \<Rightarrow> (error + unit) \<times> cluster \<times> net" where
  "spawn total_vcpus memory_size_kb c w =
     (if nodes c = [] then (Inl ZeroDivisionError, c, w)
      else
        (let count_per_node = total_vcpus div int (length (nodes c));
             remainder = total_vcpus mod int (length (nodes c))
         in spawn_loop count_per_node remainder memory_size_kb 0 c w))"

text \<open>
  \<^verbatim>\<open>DistributedCluster.load_program\<close>. An instruction is a tuple
  \<open>(opcode, reg1, reg2, immediate)\<close>; each is packed with \<^verbatim>\<open>'BBBxI'\<close>.
\<close>

type_synonym instr = "int \<times> int \<times> int \<times> int"

definition encode_instr :: "instr \<Rightarrow> error + byte list" where
  "encode_instr ins =
     (case ins of (i0, i1, i2, i3) \<Rightarrow> pack [Fmt_B, Fmt_B, Fmt_B, Fmt_x, Fmt_I] [i0, i1, i2, i3])"

fun encode_instrs :: "instr list \<Rightarrow> byte list \<Rightarrow> error + byte list" where
  "encode_instrs [] instr_bytes = Inr instr_bytes"
| "encode_instrs (ins # rest) instr_bytes =
     (case encode_instr ins of
        Inl e \<Rightarrow> Inl e
      | Inr bs \<Rightarrow> encode_instrs rest (instr_bytes @ bs))"

definition load_program ::
  "int \<Rightarrow> instr list \<Rightarrow> cluster \<Rightarrow> net \<Rightarrow> (error + unit) \<times> cluster \<times> net" where
  "load_program vcpu_id instructions c w =
     (if vcpu_id \<ge> int (length (vcpu_map c))
      then (Inl (IndexError ''vCPU ID out of range''), c, w)
      else
        (case py_index (vcpu_map c) vcpu_id of
           Inl e \<Rightarrow> (Inl e, c, w)
         | Inr (node_idx, local_id) \<Rightarrow>
             (case py_index (nodes c) (int node_idx) of
                Inl e \<Rightarrow> (Inl e, c, w)
              | Inr node \<Rightarrow>
                  (case pack [Fmt_I, Fmt_I] [int local_id, int (length instructions)] of
                     Inl e \<Rightarrow> (Inl e, c, w)
                   | Inr header_payload \<Rightarrow>
                       (case encode_instrs instructions [] of
                          Inl e \<Rightarrow> (Inl e, c, w)
                        | Inr instr_bytes \<Rightarrow>
                            (case send_cmd (sock node) CMD_LOAD_PROG
                                    (header_payload @ instr_bytes) w of
                               (Inl e, w1) \<Rightarrow> (Inl e, c, w1)
                             | (Inr u, w1) \<Rightarrow>
                                 (case recv_resp (sock node) w1 of
                                    (Inl e, w2) \<Rightarrow> (Inl e, c, w2)
                                  | (Inr ack, w2) \<Rightarrow> (Inr (), c, w2))))))))"

text \<open>\<^verbatim>\<open>DistributedCluster.run_all\<close>.\<close>

fun run_all_loop :: "node list \<Rightarrow> byte list \<Rightarrow> net \<Rightarrow> (error + unit) \<times> net" where
  "run_all_loop [] payload w = (Inr (), w)"
| "run_all_loop (node # rest) payload w =
     (case send_cmd (sock node) CMD_RUN_CLUSTER payload w of
        (Inl e, w1) \<Rightarrow> (Inl e, w1)
      | (Inr u, w1) \<Rightarrow>
          (case recv_resp (sock node) w1 of
             (Inl e, w2) \<Rightarrow> (Inl e, w2)
           | (Inr ack, w2) \<Rightarrow> run_all_loop rest payload w2))"

definition run_all :: "int \<Rightarrow> cluster \<Rightarrow> net \<Rightarrow> (error + unit) \<times> cluster \<times> net" where
  "run_all cycles c w =
     (case pack [Fmt_Q] [cycles] of
        Inl e \<Rightarrow> (Inl e, c, w)
      | Inr payload \<Rightarrow> (case run_all_loop (nodes c) payload w of (r, w') \<Rightarrow> (r, c, w')))"

text \<open>\<^verbatim>\<open>DistributedCluster.read_memory\<close>; the payload is packed with \<^verbatim>\<open>'IQQ'\<close>.\<close>

definition read_memory_payload :: "int \<Rightarrow> int \<Rightarrow> int \<Rightarrow> error + byte list" where
  "read_memory_payload local_id offset sz = pack [Fmt_I, Fmt_Q, Fmt_Q] [local_id, offset, sz]"

definition read_memory ::
  "int \<Rightarrow> int \<Rightarrow> int \<Rightarrow> cluster \<Rightarrow> net \<Rightarrow> (error + byte list option) \<times> cluster \<times> net" where
  "read_memory vcpu_id offset sz c w =
     (if vcpu_id \<ge> int (length (vcpu_map c))
      then (Inl (IndexError ''vCPU ID out of range''), c, w)
      else
        (case py_index (vcpu_map c) vcpu_id of
           Inl e \<Rightarrow> (Inl e, c, w)
         | Inr (node_idx, local_id) \<Rightarrow>
             (case py_index (nodes c) (int node_idx) of
                Inl e \<Rightarrow> (Inl e, c, w)
              | Inr node \<Rightarrow>
                  (case read_memory_payload (int local_id) offset sz of
                     Inl e \<Rightarrow> (Inl e, c, w)
                   | Inr payload \<Rightarrow>
                       (case send_cmd (sock node) CMD_READ_MEM payload w of
                          (Inl e, w1) \<Rightarrow> (Inl e, c, w1)
                        | (Inr u, w1) \<Rightarrow>
                            (case recv_resp (sock node) w1 of
                               (Inl e, w2) \<Rightarrow> (Inl e, c, w2)
                             | (Inr resp_payload, w2) \<Rightarrow> (Inr resp_payload, c, w2)))))))"

text \<open>
  \<^verbatim>\<open>DistributedCluster.get_telemetry\<close>. The result dictionary has the two keys
  \<^verbatim>\<open>"instructions"\<close> and \<^verbatim>\<open>"gpu_offloads"\<close>. \<^verbatim>\<open>if data:\<close> is false for
  \<^verbatim>\<open>None\<close> and for empty bytes.
\<close>

record telemetry =
  instructions :: int
  gpu_offloads :: int

fun get_telemetry_loop ::
  "node list \<Rightarrow> int \<Rightarrow> int \<Rightarrow> net \<Rightarrow> (error + telemetry) \<times> net" where
  "get_telemetry_loop [] total_instr total_gpu w =
     (Inr \<lparr>instructions = total_instr, gpu_offloads = total_gpu\<rparr>, w)"
| "get_telemetry_loop (node # rest) total_instr total_gpu w =
     (case send_cmd (sock node) CMD_GET_STATS [] w of
        (Inl e, w1) \<Rightarrow> (Inl e, w1)
      | (Inr u, w1) \<Rightarrow>
          (case recv_resp (sock node) w1 of
             (Inl e, w2) \<Rightarrow> (Inl e, w2)
           | (Inr data, w2) \<Rightarrow>
               (if data = None \<or> data = Some []
                then get_telemetry_loop rest total_instr total_gpu w2
                else
                  (case unpack [Fmt_Q, Fmt_Q] (the data) of
                     Inl e \<Rightarrow> (Inl e, w2)
                   | Inr [instr, gpu] \<Rightarrow>
                       get_telemetry_loop rest (total_instr + instr) (total_gpu + gpu) w2
                   | Inr _ \<Rightarrow> (Inl ValueError, w2)))))"

definition get_telemetry :: "cluster \<Rightarrow> net \<Rightarrow> (error + telemetry) \<times> cluster \<times> net" where
  "get_telemetry c w =
     (case get_telemetry_loop (nodes c) 0 0 w of (r, w') \<Rightarrow> (r, c, w'))"

section \<open>The local cluster of the engine wrapper\<close>

text \<open>
  \<^verbatim>\<open>zepu/wrapper.py\<close> calls the engine library through ctypes. The library is C
  code outside the Python sources, so its entry points are parameters of the model: how
  a cluster object's \<^verbatim>\<open>vcpu_count\<close> field (a \<^verbatim>\<open>c_uint32\<close>) is read from the engine
  state, \<^verbatim>\<open>vcpu_create_instruction\<close> and \<^verbatim>\<open>vcpu_load_program\<close>. Each call may
  change the engine state \<open>'e\<close> or fail. \<^verbatim>\<open>VCPU_INSTRUCTION\<close> is the ctypes
  structure of the wrapper; a fresh array of it is zero-initialised.
\<close>

record vcpu_instruction =
  opcode :: "8 word"
  reg1 :: "8 word"
  reg2 :: "8 word"
  immediate :: "32 word"

record 'e engine_lib =
  contents_vcpu_count :: "'e \<Rightarrow> 32 word"
  vcpu_create_instruction :: "int list \<Rightarrow> 'e \<Rightarrow> (error + vcpu_instruction) \<times> 'e"
  vcpu_load_program :: "int \<Rightarrow> vcpu_instruction list \<Rightarrow> nat \<Rightarrow> int \<Rightarrow> 'e \<Rightarrow> (error + unit) \<times> 'e"

text \<open>
  An element of the argument \<^verbatim>\<open>instructions\<close> (here \<open>instrs\<close>) is a dictionary (read with
  \<^verbatim>\<open>instr.get(key, 0)\<close>), a list or tuple (passed on as the arguments), or
  anything else (its slot stays zero).
\<close>

datatype instr_arg =
    Instr_dict "string \<Rightarrow> int option"
  | Instr_seq "int list"
  | Instr_other

definition dict_get :: "(string \<Rightarrow> int option) \<Rightarrow> string \<Rightarrow> int \<Rightarrow> int" where
  "dict_get d k dflt = (case d k of None \<Rightarrow> dflt | Some v \<Rightarrow> v)"

definition zero_instruction :: vcpu_instruction where
  "zero_instruction = \<lparr>opcode = 0, reg1 = 0, reg2 = 0, immediate = 0\<rparr>"

fun fill_c_arr ::
  "'e engine_lib \<Rightarrow> instr_arg list \<Rightarrow> vcpu_instruction list \<Rightarrow> 'e
     \<Rightarrow> (error + vcpu_instruction list) \<times> 'e" where
  "fill_c_arr lib [] c_arr e = (Inr c_arr, e)"
| "fill_c_arr lib (Instr_dict d # rest) c_arr e =
     (case vcpu_create_instruction lib
             [dict_get d ''op'' 0, dict_get d ''r1'' 0, dict_get d ''r2'' 0, dict_get d ''imm'' 0] e of
        (Inl er, e1) \<Rightarrow> (Inl er, e1)
      | (Inr ci, e1) \<Rightarrow> fill_c_arr lib rest (c_arr @ [ci]) e1)"
| "fill_c_arr lib (Instr_seq xs # rest) c_arr e =
     (case vcpu_create_instruction lib xs e of
        (Inl er, e1) \<Rightarrow> (Inl er, e1)
      | (Inr ci, e1) \<Rightarrow> fill_c_arr lib rest (c_arr @ [ci]) e1)"
| "fill_c_arr lib (Instr_other # rest) c_arr e =
     fill_c_arr lib rest (c_arr @ [zero_instruction]) e"

definition Cluster_load_program ::
  "'e engine_lib \<Rightarrow> int \<Rightarrow> instr_arg list \<Rightarrow> 'e \<Rightarrow> (error + unit) \<times> 'e" where
  "Cluster_load_program lib vcpu_id instrs e =
     (if vcpu_id \<ge> uint (contents_vcpu_count lib e)
      then (Inl (IndexError ''vCPU ID out of range''), e)
      else
        (case fill_c_arr lib instrs [] e of
           (Inl er, e1) \<Rightarrow> (Inl er, e1)
         | (Inr c_arr, e1) \<Rightarrow> vcpu_load_program lib vcpu_id c_arr (length instrs) 0 e1))"

section \<open>The instruction slot as the worker reads it\<close>

text \<open>
  Modelled from the spec: the worker that decodes a loaded program is not among the
  Python sources. The spec gives the slot as \<open>{opcode:u8, reg_a:u8, reg_b:u8, pad:u8,
  immediate:u32 LE}\<close>, 8 bytes; the decoder reads the fields at these offsets and
  ignores the padding byte.
\<close>

definition decode_instr :: "byte list \<Rightarrow> instr option" where
  "decode_instr slot =
     (if length slot = 8
      then Some (uint (slot ! 0), uint (slot ! 1), uint (slot ! 2), from_le (take 4 (drop 4 slot)))
      else None)"

section \<open>Vocabulary for the properties\<close>

text \<open>
  What a run of \<open>recv_all_loop\<close> that finds \<open>n\<close> bytes does to a socket's
  queue: the pieces the \<^verbatim>\<open>recv\<close> calls return, and the packets left behind.
  \<open>consume\<close> is the network state after such a run.
\<close>

fun read_chunks :: "nat \<Rightarrow> byte list list \<Rightarrow> byte list list" where
  "read_chunks n [] = []"
| "read_chunks n (p # ps) =
     (if n = 0 then []
      else if length p \<le> n then p # read_chunks (n - length p) ps
      else [take n p])"

fun rest_packets :: "nat \<Rightarrow> byte list list \<Rightarrow> byte list list" where
  "rest_packets n [] = []"
| "rest_packets n (p # ps) =
     (if n = 0 then p # ps
      else if length p \<le> n then rest_packets (n - length p) ps
      else drop n p # ps)"

definition consume :: "nat \<Rightarrow> nat \<Rightarrow> net \<Rightarrow> net" where
  "consume s n w =
     w\<lparr>inbox := (inbox w)(s := rest_packets n (inbox w s)),
       trace := trace w @ map (Recvd s) (read_chunks n (inbox w s))\<rparr>"

text \<open>The bytes queued on a socket and not yet read; a socket the peer has not closed.\<close>

definition pending :: "net \<Rightarrow> nat \<Rightarrow> byte list" where
  "pending w s = concat (inbox w s)"

definition open_sock :: "net \<Rightarrow> nat \<Rightarrow> bool" where
  "open_sock w s = ([] \<notin> set (inbox w s))"

text \<open>The frames handed to \<^verbatim>\<open>sendall\<close>, in order, each with its socket.\<close>

fun sent_frames :: "event list \<Rightarrow> (nat \<times> byte list) list" where
  "sent_frames [] = []"
| "sent_frames (Sent s bs # es) = (s, bs) # sent_frames es"
| "sent_frames (Recvd s bs # es) = sent_frames es"

text \<open>
  The trace with consecutive receives on one socket merged, so that it does not depend
  on how the network cut the bytes into packets.
\<close>

fun coalesce :: "event list \<Rightarrow> event list" where
  "coalesce (Recvd s a # Recvd t b # es) =
     (if s = t then coalesce (Recvd s (a @ b) # es) else Recvd s a # coalesce (Recvd t b # es))"
| "coalesce (e # es) = e # coalesce es"
| "coalesce [] = []"

text \<open>A request frame and a response as they appear on the wire.\<close>

definition MAGIC :: int where
  "MAGIC = 0x56435055"

definition request_frame :: "int \<Rightarrow> byte list \<Rightarrow> byte list" where
  "request_frame cmd payload =
     u32le MAGIC @ u32le cmd @ u32le 0 @ u32le (int (length payload)) @ payload"

definition response_bytes :: "int \<Rightarrow> int \<Rightarrow> byte list \<Rightarrow> byte list" where
  "response_bytes status req_id payload =
     u32le status @ u32le req_id @ u32le (int (length payload)) @ payload"

text \<open>
  The sharding rule in the spec's words: with \<open>M\<close> nodes, node \<open>i\<close> receives
  \<open>total div M + 1\<close> vCPUs if \<open>i < total mod M\<close>, else \<open>total div M\<close>; the segment of
  the map for one \<^verbatim>\<open>spawn\<close> call lists the nodes in order and, within a node, the
  local ids \<open>0..count-1\<close> in order.
\<close>

definition spec_share :: "int \<Rightarrow> nat \<Rightarrow> nat \<Rightarrow> int" where
  "spec_share total_vcpus M i =
     (if int i < total_vcpus mod int M then total_vcpus div int M + 1 else total_vcpus div int M)"

definition spec_segment :: "int \<Rightarrow> nat \<Rightarrow> (nat \<times> nat) list" where
  "spec_segment total_vcpus M =
     concat (map (\<lambda>i. map (Pair i) [0..<nat (spec_share total_vcpus M i)]) [0..<M])"


text \<open>
  One completed iteration of the loop of \<open>spawn_loop\<close> for node \<open>i\<close> with count
  \<open>cnt\<close>; the count the loop computes for node \<open>j\<close>; and the request the loop sends
  to node \<open>j\<close> (none when the count is 0).
\<close>

definition spawn_step :: "nat \<Rightarrow> int \<Rightarrow> cluster \<Rightarrow> cluster" where
  "spawn_step i cnt c =
     c\<lparr>vcpu_map := vcpu_map c @ map (Pair i) [0..<nat cnt],
       nodes := (nodes c)[i := (nodes c ! i)\<lparr>vcpu_count := vcpu_count (nodes c ! i) + cnt\<rparr>]\<rparr>"

definition loop_count :: "int \<Rightarrow> int \<Rightarrow> nat \<Rightarrow> int" where
  "loop_count cpn r j = cpn + (if int j < r then 1 else 0)"

definition spawn_frames :: "int \<Rightarrow> int \<Rightarrow> int \<Rightarrow> node list \<Rightarrow> nat \<Rightarrow> (nat \<times> byte list) list" where
  "spawn_frames cpn r mem ns j =
     (if loop_count cpn r j = 0 then []
      else [(sock (ns ! j),
             request_frame CMD_SPAWN_VCPU (u32le (loop_count cpn r j) @ u32le mem))])"

text \<open>
  For \<^verbatim>\<open>get_telemetry\<close>: the reply of a node to \<^verbatim>\<open>GET_STATS\<close> as it appears on
  the wire, what it means for a node's socket to have such a reply queued (with request
  id, the two counters and the bytes after the reply given per socket), the events of
  the exchange with one node, and the network state after it.
\<close>

definition stats_reply :: "int \<Rightarrow> int \<Rightarrow> int \<Rightarrow> byte list" where
  "stats_reply rid a b = response_bytes 200 rid (u64le a @ u64le b)"

definition stats_ready ::
  "(nat \<Rightarrow> int) \<Rightarrow> (nat \<Rightarrow> int) \<Rightarrow> (nat \<Rightarrow> int) \<Rightarrow> (nat \<Rightarrow> byte list) \<Rightarrow> net \<Rightarrow> node \<Rightarrow> bool" where
  "stats_ready rid ins gpu rest w n =
     (open_sock w (sock n)
      \<and> pending w (sock n) =
          stats_reply (rid (sock n)) (ins (sock n)) (gpu (sock n)) @ rest (sock n)
      \<and> 0 \<le> ins (sock n) \<and> ins (sock n) < 2 ^ 64
      \<and> 0 \<le> gpu (sock n) \<and> gpu (sock n) < 2 ^ 64)"

fun starts_sent :: "event list \<Rightarrow> bool" where
  "starts_sent [] = True"
| "starts_sent (Sent s bs # es) = True"
| "starts_sent (Recvd s bs # es) = False"

definition stats_exchange :: "net \<Rightarrow> node \<Rightarrow> event list" where
  "stats_exchange w n =
     Sent (sock n) (request_frame CMD_GET_STATS []) #
     map (Recvd (sock n)) (read_chunks 12 (inbox w (sock n))) @
     map (Recvd (sock n)) (read_chunks 16 (rest_packets 12 (inbox w (sock n))))"

definition after_stats :: "net \<Rightarrow> node \<Rightarrow> net" where
  "after_stats w n =
     w\<lparr>inbox := (inbox w)(sock n := rest_packets 16 (rest_packets 12 (inbox w (sock n)))),
       trace := trace w @ stats_exchange w n\<rparr>"

section \<open>Example states\<close>

text \<open>
  A cluster of two connected nodes on sockets 3 and 4 that has spawned three vCPUs, and
  a network state in which the two sockets have the given packets queued.
\<close>

definition ex_cluster :: cluster where
  "ex_cluster =
     \<lparr>nodes = [\<lparr>sock = 3, addr = ''10.0.0.1:6000'', vcpu_count = 2\<rparr>,
               \<lparr>sock = 4, addr = ''10.0.0.2:6000'', vcpu_count = 1\<rparr>],
      vcpu_map = [(0, 0), (0, 1), (1, 0)]\<rparr>"

definition ex_fresh :: cluster where
  "ex_fresh =
     \<lparr>nodes = [\<lparr>sock = 3, addr = ''10.0.0.1:6000'', vcpu_count = 0\<rparr>,
               \<lparr>sock = 4, addr = ''10.0.0.2:6000'', vcpu_count = 0\<rparr>],
      vcpu_map = []\<rparr>"

definition ex_net :: "byte list list \<Rightarrow> byte list list \<Rightarrow> net" where
  "ex_net q3 q4 = \<lparr>inbox = (\<lambda>s. if s = 3 then q3 else if s = 4 then q4 else []), trace = []\<rparr>"

text \<open>An engine stub whose state counts the library calls made so far.\<close>

definition ex_lib :: "nat engine_lib" where
  "ex_lib =
     \<lparr>contents_vcpu_count = (\<lambda>e. 4),
      vcpu_create_instruction = (\<lambda>args e. (Inr zero_instruction, Suc e)),
      vcpu_load_program = (\<lambda>vcpu_id c_arr n entry e. (Inr (), Suc e))\<rparr>"

section \<open>Bytes and framing: basic facts\<close>

lemma length_le_bytes [simp]: "length (le_bytes k v) = k"
  by (induction k arbitrary: v) simp_all

lemma from_le_le_bytes: "0 \<le> v \<Longrightarrow> v < 2 ^ (8 * k) \<Longrightarrow> from_le (le_bytes k v) = v"
proof (induction k arbitrary: v)
  case 0
  then show ?case by simp
next
  case (Suc k)
  have aux: "\<And>X::int. v < 256 * X \<Longrightarrow> v div 256 < X" by arith
  from Suc.prems have "v < 256 * 2 ^ (8 * k)" by (simp add: power_add)
  then have "v div 256 < 2 ^ (8 * k)" by (rule aux)
  moreover from Suc.prems have "0 \<le> v div 256" by simp
  ultimately have "from_le (le_bytes k (v div 256)) = v div 256" by (rule Suc.IH[rotated])
  then show ?case by (simp add: uint_word_of_int)
qed

lemma from_le_bounds: "0 \<le> from_le bs \<and> from_le bs < 2 ^ (8 * length bs)"
proof (induction bs)
  case Nil
  then show ?case by simp
next
  case (Cons b bs)
  have "uint b < 256" using uint_bounded[of b] by simp
  moreover have "0 \<le> uint b" by simp
  moreover have "\<And>X::int. uint b < 256 \<Longrightarrow> from_le bs < X \<Longrightarrow> uint b + 256 * from_le bs < 256 * X"
    by arith
  ultimately show ?case using Cons by (simp add: power_add)
qed

lemma replicate_4: "replicate 4 x = [x, x, x, x]"
  by (simp add: numeral_eq_Suc)

lemma pack_IIII:
  "pack [Fmt_I, Fmt_I, Fmt_I, Fmt_I] [a, b, c, d] =
     (if 0 \<le> a \<and> a < 2 ^ 32 \<and> 0 \<le> b \<and> b < 2 ^ 32 \<and> 0 \<le> c \<and> c < 2 ^ 32 \<and> 0 \<le> d \<and> d < 2 ^ 32
      then Inr (u32le a @ u32le b @ u32le c @ u32le d) else Inl StructError)"
  by (simp add: pack_def pad_to_def)

lemma pack_II:
  "pack [Fmt_I, Fmt_I] [a, b] =
     (if 0 \<le> a \<and> a < 2 ^ 32 \<and> 0 \<le> b \<and> b < 2 ^ 32
      then Inr (u32le a @ u32le b) else Inl StructError)"
  by (simp add: pack_def pad_to_def)

lemma pack_IQQ:
  "pack [Fmt_I, Fmt_Q, Fmt_Q] [a, b, c] =
     (if 0 \<le> a \<and> a < 2 ^ 32 \<and> 0 \<le> b \<and> b < 2 ^ 64 \<and> 0 \<le> c \<and> c < 2 ^ 64
      then Inr (u32le a @ [0, 0, 0, 0] @ u64le b @ u64le c) else Inl StructError)"
  by (simp add: pack_def pad_to_def replicate_4)

lemma pack_BBBxI:
  "pack [Fmt_B, Fmt_B, Fmt_B, Fmt_x, Fmt_I] [a, b, c, d] =
     (if 0 \<le> a \<and> a < 2 ^ 8 \<and> 0 \<le> b \<and> b < 2 ^ 8 \<and> 0 \<le> c \<and> c < 2 ^ 8 \<and> 0 \<le> d \<and> d < 2 ^ 32
      then Inr ([word_of_int a, word_of_int b, word_of_int c, 0] @ u32le d) else Inl StructError)"
  by (simp add: pack_def pad_to_def)

lemma unpack_III:
  "unpack [Fmt_I, Fmt_I, Fmt_I] bs =
     (if length bs = 12
      then Inr [from_le (take 4 bs), from_le (take 4 (drop 4 bs)), from_le (take 4 (drop 8 bs))]
      else Inl StructError)"
  by (simp add: unpack_def calcsize_def pad_to_def)

lemma unpack_QQ:
  "unpack [Fmt_Q, Fmt_Q] bs =
     (if length bs = 16
      then Inr [from_le (take 8 bs), from_le (take 8 (drop 8 bs))]
      else Inl StructError)"
  by (simp add: unpack_def calcsize_def pad_to_def)

section \<open>Receiving: what the loop reads\<close>

lemma read_chunks_0 [simp]: "read_chunks 0 ps = []"
  by (cases ps) simp_all

lemma rest_packets_0 [simp]: "rest_packets 0 ps = ps"
  by (cases ps) simp_all

lemma concat_rest_packets: "concat (rest_packets n ps) = drop n (concat ps)"
  by (induction ps arbitrary: n) simp_all

lemma concat_read_chunks: "concat (read_chunks n ps) = take n (concat ps)"
  by (induction ps arbitrary: n) simp_all

lemma rest_packets_no_close: "[] \<notin> set ps \<Longrightarrow> [] \<notin> set (rest_packets n ps)"
  by (induction ps arbitrary: n) auto

lemma consume_0 [simp]: "consume s 0 w = w"
  by (simp add: consume_def)

lemma inbox_consume:
  "inbox (consume s n w) h = (if h = s then rest_packets n (inbox w s) else inbox w h)"
  by (simp add: consume_def)

declare recv_all_loop.simps [simp del]

lemma recv_all_loop_ok:
  "[] \<notin> set (inbox w s) \<Longrightarrow> n - length data \<le> length (concat (inbox w s)) \<Longrightarrow>
   recv_all_loop s n data w =
     (Inr (data @ take (n - length data) (concat (inbox w s))), consume s (n - length data) w)"
proof (induction s n data w rule: recv_all_loop.induct)
  case (1 s n data w)
  show ?case
  proof (cases "length data < n")
    case False
    then show ?thesis by (simp add: recv_all_loop.simps[of s n data w])
  next
    case True
    define m where "m = n - length data"
    with True have m: "0 < m" by simp
    from "1.prems"(2) m obtain p ps where pk: "inbox w s = p # ps"
      by (cases "inbox w s") (auto simp: m_def)
    with "1.prems"(1) have p: "p \<noteq> []" by auto
    define w1 where "w1 = snd (sock_recv s m w)"
    have rc: "sock_recv s m w = (take m p, w1)"
      by (simp add: w1_def sock_recv_def pk)
    have ne: "take m p \<noteq> []" using p m by simp
    have in1: "inbox w1 s = (if drop m p = [] then ps else drop m p # ps)"
      by (simp add: w1_def sock_recv_def pk)
    have noc: "[] \<notin> set (inbox w1 s)" using "1.prems"(1) pk by (simp add: in1)
    have len: "n - length (data @ take m p) \<le> length (concat (inbox w1 s))"
      using "1.prems"(2) pk by (auto simp: in1 m_def)
    have IH: "recv_all_loop s n (data @ take m p) w1 =
      (Inr ((data @ take m p) @ take (n - length (data @ take m p)) (concat (inbox w1 s))),
       consume s (n - length (data @ take m p)) w1)"
      using "1.IH"[OF True rc[unfolded m_def, symmetric] ne[unfolded m_def] noc len[unfolded m_def]]
      by (simp add: m_def)
    have step: "recv_all_loop s n data w = recv_all_loop s n (data @ take m p) w1"
      using True rc ne by (simp add: recv_all_loop.simps[of s n data w] m_def)
    have data_eq: "(data @ take m p) @ take (n - length (data @ take m p)) (concat (inbox w1 s))
                   = data @ take m (concat (inbox w s))"
      by (auto simp: in1 pk m_def min_def)
    have st_eq: "consume s (n - length (data @ take m p)) w1 = consume s m w"
    proof (cases "length p \<le> m")
      case True
      then have "drop m p = []" by simp
      with True m show ?thesis
        by (simp add: consume_def w1_def sock_recv_def pk m_def)
    next
      case False
      then have "drop m p \<noteq> []" by simp
      moreover from False have "n - length (data @ take m p) = 0" by (simp add: m_def)
      ultimately show ?thesis using False m
        by (simp add: consume_def w1_def sock_recv_def pk)
    qed
    show ?thesis unfolding step IH data_eq st_eq by (simp add: m_def)
  qed
qed

lemma recv_all_ok:
  "[] \<notin> set (inbox w s) \<Longrightarrow> n \<le> length (concat (inbox w s)) \<Longrightarrow>
   recv_all s n w = (Inr (take n (concat (inbox w s))), consume s n w)"
  using recv_all_loop_ok[of w s n "[]"] by (simp add: recv_all_def)

lemma send_cmd_eq:
  "send_cmd s cmd payload w =
     (if 0 \<le> cmd \<and> cmd < 2 ^ 32 \<and> int (length payload) < 2 ^ 32
      then (Inr (), w\<lparr>trace := trace w @ [Sent s (request_frame cmd payload)]\<rparr>)
      else (Inl StructError, w))"
  by (simp add: send_cmd_def pack_IIII sock_sendall_def Let_def request_frame_def MAGIC_def)

lemma recv_resp_header:
  assumes "[] \<notin> set (inbox w s)" and "12 \<le> length (concat (inbox w s))"
  shows "recv_resp s w =
     (let hdr = take 12 (concat (inbox w s)); w1 = consume s 12 w;
          status = from_le (take 4 hdr); len = from_le (take 4 (drop 8 hdr))
      in if status \<noteq> 200
         then (Inl (RuntimeError (''Remote Error: '' @ str_int status)), w1)
         else if len > 0
         then (case recv_all s (nat len) w1 of
                 (Inl e, w2) \<Rightarrow> (Inl e, w2)
               | (Inr d, w2) \<Rightarrow> (Inr (Some d), w2))
         else (Inr None, w1))"
  using assms by (simp add: recv_resp_def recv_all_ok unpack_III Let_def)

lemma u32le_magic: "u32le 0x56435055 = [0x55, 0x50, 0x43, 0x56]"
  by (simp add: numeral_eq_Suc)

lemma uint_byte: "0 \<le> a \<Longrightarrow> a < 256 \<Longrightarrow> uint (word_of_int a :: byte) = a"
  by (simp add: uint_word_of_int)

section \<open>The request frame\<close>

text \<open>
  C8. Every request the client sends is a 16-byte header followed by the payload: the
  magic \<open>0x56435055\<close>, the command, the request id (always 0) and the payload length,
  each an unsigned 32-bit little-endian field, and then exactly the payload bytes.
  \<open>send_cmd\<close> holds the only \<^verbatim>\<open>sendall\<close> of the client. When the command or the
  payload length does not fit 32 bits, \<^verbatim>\<open>struct.pack\<close> raises and nothing is sent;
  the commands of the client are the constants 0 to 6.
\<close>

theorem send_cmd_request_frame:
  "send_cmd s cmd payload w =
     (if 0 \<le> cmd \<and> cmd < 2 ^ 32 \<and> int (length payload) < 2 ^ 32
      then (Inr (), w\<lparr>trace := trace w @
              [Sent s (u32le 0x56435055 @ u32le cmd @ u32le 0 @ u32le (int (length payload)) @ payload)]\<rparr>)
      else (Inl StructError, w))
   \<and> length (u32le 0x56435055 @ u32le cmd @ u32le 0 @ u32le (int (length payload))) = 16
   \<and> u32le 0x56435055 = [0x55, 0x50, 0x43, 0x56]
   \<and> (0 \<le> cmd \<and> cmd < 2 ^ 32 \<and> int (length payload) < 2 ^ 32 \<longrightarrow>
        from_le (u32le 0x56435055) = 0x56435055 \<and> from_le (u32le cmd) = cmd \<and>
        from_le (u32le 0) = 0 \<and> from_le (u32le (int (length payload))) = int (length payload))"
proof -
  have "from_le (u32le 0x56435055) = 0x56435055" by (rule from_le_le_bytes) simp_all
  moreover have "from_le (u32le 0) = 0" by (rule from_le_le_bytes) simp_all
  moreover have "0 \<le> cmd \<and> cmd < 2 ^ 32 \<longrightarrow> from_le (u32le cmd) = cmd"
    by (simp add: from_le_le_bytes)
  moreover have "int (length payload) < 2 ^ 32 \<longrightarrow>
      from_le (u32le (int (length payload))) = int (length payload)"
    by (simp add: from_le_le_bytes)
  ultimately show ?thesis
    using send_cmd_eq[of s cmd payload w] u32le_magic
    by (simp add: request_frame_def MAGIC_def)
qed

theorem send_cmd_request_frame_witness:
  "send_cmd 3 CMD_GET_STATS [] (ex_net [] []) =
     (Inr (), (ex_net [] [])\<lparr>trace := [Sent 3 (u32le 0x56435055 @ u32le 6 @ u32le 0 @ u32le 0)]\<rparr>)
   \<and> from_le (u32le 6) = 6"
  using send_cmd_request_frame[of 3 CMD_GET_STATS "[]" "ex_net [] []"]
  by (simp add: CMD_GET_STATS_def ex_net_def)

section \<open>Out-of-range vCPU ids\<close>

text \<open>
  C7. A call of \<^verbatim>\<open>load_program\<close> or \<^verbatim>\<open>read_memory\<close> of the distributed cluster
  with a vCPU id that is at least the length of the sharding map, and a call of the local
  cluster's \<^verbatim>\<open>load_program\<close> with an id that is at least the engine's
  \<^verbatim>\<open>vcpu_count\<close>, raises \<^verbatim>\<open>IndexError\<close> and leaves everything as it was: the
  cluster, every socket's queue and the trace of sends and receives are unchanged, and
  the engine state is unchanged whatever the library's entry points would do to it.
\<close>

theorem out_of_range_rejected_first:
  "(int (length (vcpu_map c)) \<le> vcpu_id \<longrightarrow>
      load_program vcpu_id instrs c w = (Inl (IndexError ''vCPU ID out of range''), c, w) \<and>
      read_memory vcpu_id offset sz c w = (Inl (IndexError ''vCPU ID out of range''), c, w))
   \<and> (uint (contents_vcpu_count lib e) \<le> local_vcpu_id \<longrightarrow>
      Cluster_load_program lib local_vcpu_id args e =
        (Inl (IndexError ''vCPU ID out of range''), e))"
  by (simp add: load_program_def read_memory_def Cluster_load_program_def)

theorem out_of_range_rejected_first_witness:
  "load_program 3 [(5, 0, 0, 100)] ex_cluster (ex_net [] []) =
      (Inl (IndexError ''vCPU ID out of range''), ex_cluster, ex_net [] [])
   \<and> read_memory 3 128 8 ex_cluster (ex_net [] []) =
      (Inl (IndexError ''vCPU ID out of range''), ex_cluster, ex_net [] [])
   \<and> Cluster_load_program ex_lib 4 [Instr_seq [5, 0, 0, 100]] 0 =
      (Inl (IndexError ''vCPU ID out of range''), 0)"
  using out_of_range_rejected_first[of ex_cluster 3 "[(5, 0, 0, 100)]" "ex_net [] []" 128 8 ex_lib 0 4
          "[Instr_seq [5, 0, 0, 100]]"]
  by (simp add: ex_cluster_def ex_lib_def)

section \<open>The instruction slot\<close>

text \<open>
  C3. For every instruction \<open>(opcode, reg_a, reg_b, immediate)\<close> with the first three
  fields in \<open>[0, 2^8)\<close> and the immediate in \<open>[0, 2^32)\<close>, the encoder of
  \<^verbatim>\<open>load_program\<close> produces the 8-byte slot: opcode, reg_a, reg_b, one zero byte,
  and the immediate as 4 little-endian bytes; decoding the slot gives the instruction
  back.
\<close>

theorem instr_slot_roundtrip:
  assumes "0 \<le> opc" "opc < 2 ^ 8" "0 \<le> reg_a" "reg_a < 2 ^ 8" "0 \<le> reg_b" "reg_b < 2 ^ 8"
    and "0 \<le> imm" "imm < 2 ^ 32"
  shows "encode_instr (opc, reg_a, reg_b, imm) =
           Inr ([word_of_int opc, word_of_int reg_a, word_of_int reg_b, 0] @ u32le imm)
         \<and> length ([word_of_int opc, word_of_int reg_a, word_of_int reg_b, 0 :: byte] @ u32le imm) = 8
         \<and> decode_instr ([word_of_int opc, word_of_int reg_a, word_of_int reg_b, 0] @ u32le imm) =
             Some (opc, reg_a, reg_b, imm)"
proof -
  have "from_le (u32le imm) = imm" using assms by (simp add: from_le_le_bytes)
  then show ?thesis
    using assms by (simp add: encode_instr_def pack_BBBxI decode_instr_def uint_byte)
qed

theorem instr_slot_roundtrip_witness:
  "encode_instr (5, 0, 1, 100) = Inr ([5, 0, 1, 0] @ u32le 100)
   \<and> decode_instr ([5, 0, 1, 0] @ u32le 100) = Some (5, 0, 1, 100)"
  using instr_slot_roundtrip[of 5 0 1 100] by simp

section \<open>Receiving: the trace and the errors\<close>

lemma sent_frames_append: "sent_frames (xs @ ys) = sent_frames xs @ sent_frames ys"
  by (induction xs rule: sent_frames.induct) simp_all

lemma sock_recv_sent: "sent_frames (trace (snd (sock_recv s k w))) = sent_frames (trace w)"
  by (simp add: sock_recv_def sent_frames_append split: list.splits)

lemma recv_all_loop_sent:
  "sent_frames (trace (snd (recv_all_loop s n data w))) = sent_frames (trace w)"
proof (induction s n data w rule: recv_all_loop.induct)
  case (1 s n data w)
  show ?case
  proof (cases "length data < n")
    case False
    then show ?thesis by (simp add: recv_all_loop.simps[of s n data w])
  next
    case True
    obtain packet w' where rc: "sock_recv s (n - length data) w = (packet, w')"
      by (cases "sock_recv s (n - length data) w")
    have w': "sent_frames (trace w') = sent_frames (trace w)"
      using sock_recv_sent[of s "n - length data" w] rc by simp
    show ?thesis
    proof (cases "packet = []")
      case True
      with \<open>length data < n\<close> rc w' show ?thesis
        by (simp add: recv_all_loop.simps[of s n data w])
    next
      case False
      from "1.IH"[OF True rc[symmetric] False] w' True rc False show ?thesis
        by (simp add: recv_all_loop.simps[of s n data w])
    qed
  qed
qed

lemma recv_all_loop_error:
  "recv_all_loop s n data w = (Inl e, w') \<Longrightarrow> e = ConnectionError ''Socket closed''"
proof (induction s n data w rule: recv_all_loop.induct)
  case (1 s n data w)
  show ?case
  proof (cases "length data < n")
    case False
    with "1.prems" show ?thesis by (simp add: recv_all_loop.simps[of s n data w])
  next
    case True
    obtain packet w1 where rc: "sock_recv s (n - length data) w = (packet, w1)"
      by (cases "sock_recv s (n - length data) w")
    show ?thesis
    proof (cases "packet = []")
      case True
      with \<open>length data < n\<close> rc "1.prems" show ?thesis
        by (simp add: recv_all_loop.simps[of s n data w])
    next
      case False
      with True rc "1.prems" have "recv_all_loop s n (data @ packet) w1 = (Inl e, w')"
        by (simp add: recv_all_loop.simps[of s n data w])
      with "1.IH"[OF True rc[symmetric] False] show ?thesis by simp
    qed
  qed
qed

lemma recv_all_sent: "sent_frames (trace (snd (recv_all s n w))) = sent_frames (trace w)"
  by (simp add: recv_all_def recv_all_loop_sent)

lemma recv_resp_sent: "sent_frames (trace (snd (recv_resp s w))) = sent_frames (trace w)"
proof -
  obtain r1 w1 where a: "recv_all s 12 w = (r1, w1)" by (cases "recv_all s 12 w")
  have w1: "sent_frames (trace w1) = sent_frames (trace w)"
    using recv_all_sent[of s 12 w] a by simp
  have any: "\<And>k r w2. recv_all s k w1 = (r, w2) \<Longrightarrow> sent_frames (trace w2) = sent_frames (trace w)"
  proof -
    fix k r w2 assume "recv_all s k w1 = (r, w2)"
    then have "snd (recv_all s k w1) = w2" by simp
    with recv_all_sent[of s k w1] w1 show "sent_frames (trace w2) = sent_frames (trace w)" by simp
  qed
  show ?thesis
    using w1
    by (auto simp: recv_resp_def a split: sum.splits list.splits prod.splits dest: any)
qed

lemma recv_resp_not_index_error: "fst (recv_resp s w) \<noteq> Inl (IndexError m)"
proof -
  have e1: "\<And>k w0 e w'. recv_all s k w0 = (Inl e, w') \<Longrightarrow> e \<noteq> IndexError m"
    using recv_all_loop_error by (fastforce simp: recv_all_def)
  show ?thesis
    by (auto simp: recv_resp_def unpack_def split: sum.splits list.splits prod.splits if_splits dest: e1)
qed


section \<open>The decimal rendering of the status\<close>

declare str_nat.simps [simp del]

lemma digit_val_digit_char: "d < 10 \<Longrightarrow> digit_val (digit_char d) = d"
proof -
  assume "d < 10"
  then consider "d = 0" | "d = 1" | "d = 2" | "d = 3" | "d = 4" | "d = 5" | "d = 6" | "d = 7"
    | "d = 8" | "d = 9" by atomize_elim arith
  then show ?thesis by cases (simp_all add: digit_val_def digit_char_def)
qed

lemma parse_nat_snoc: "parse_nat (s @ [ch]) = 10 * parse_nat s + digit_val ch"
  by (simp add: parse_nat_def)

lemma parse_nat_str_nat: "parse_nat (str_nat n) = n"
proof (induction n rule: str_nat.induct)
  case (1 n)
  show ?case
  proof (cases "n < 10")
    case True
    then have "str_nat n = [digit_char n]" by (simp add: str_nat.simps[of n])
    with True show ?thesis by (simp add: parse_nat_def digit_val_digit_char)
  next
    case False
    then have IH: "parse_nat (str_nat (n div 10)) = n div 10" by (rule "1.IH")
    from False have "str_nat n = str_nat (n div 10) @ [digit_char (n mod 10)]"
      by (simp add: str_nat.simps[of n])
    then show ?thesis
      using digit_val_digit_char[of "n mod 10"] by (simp add: parse_nat_snoc IH)
  qed
qed

lemma remote_error_code:
  "0 \<le> status \<Longrightarrow> int (parse_nat (drop 14 (''Remote Error: '' @ str_int status))) = status"
  by (simp add: str_int_def parse_nat_str_nat)

lemma pack_loop_error: "pack_loop fs vs acc = Inl e \<Longrightarrow> e = StructError"
  by (induction fs vs acc rule: pack_loop.induct) (auto split: if_splits)

lemma pack_error: "pack fs vs = Inl e \<Longrightarrow> e = StructError"
  by (simp add: pack_def pack_loop_error)

lemma encode_instrs_error: "encode_instrs instrs acc = Inl e \<Longrightarrow> e = StructError"
  by (induction instrs acc rule: encode_instrs.induct)
     (auto simp: encode_instr_def split: sum.splits prod.splits dest: pack_error)

lemma send_cmd_error: "send_cmd s cmd payload w = (Inl e, w') \<Longrightarrow> e = StructError"
  by (auto simp: send_cmd_eq split: if_splits)

lemma py_index_valid:
  "0 \<le> i \<Longrightarrow> i < int (length xs) \<Longrightarrow> py_index xs i = Inr (xs ! nat i)"
  by (simp add: py_index_def)

lemma py_index_negative:
  "i < 0 \<Longrightarrow> - i \<le> int (length xs) \<Longrightarrow> py_index xs i = Inr (xs ! nat (int (length xs) + i))"
  by (simp add: py_index_def)

lemma py_index_error:
  "py_index xs i = Inl e \<Longrightarrow> e = IndexError ''list index out of range''"
  by (auto simp: py_index_def split: if_splits)

lemma load_program_not_rejected:
  assumes "vcpu_id < int (length (vcpu_map c))"
  shows "fst (load_program vcpu_id instrs c w) \<noteq> Inl (IndexError ''vCPU ID out of range'')"
proof
  assume a: "fst (load_program vcpu_id instrs c w) = Inl (IndexError ''vCPU ID out of range'')"
  have r: "\<And>s w0 w1. recv_resp s w0 \<noteq> (Inl (IndexError ''vCPU ID out of range''), w1)"
    using recv_resp_not_index_error by (metis fst_conv)
  from a assms show False
    by (auto simp: load_program_def split: sum.splits prod.splits
             dest: py_index_error pack_error encode_instrs_error send_cmd_error simp: r)
qed

lemma read_memory_not_rejected:
  assumes "vcpu_id < int (length (vcpu_map c))"
  shows "fst (read_memory vcpu_id offset sz c w) \<noteq> Inl (IndexError ''vCPU ID out of range'')"
proof
  assume a: "fst (read_memory vcpu_id offset sz c w) = Inl (IndexError ''vCPU ID out of range'')"
  have r: "\<And>s w0 w1. recv_resp s w0 \<noteq> (Inl (IndexError ''vCPU ID out of range''), w1)"
    using recv_resp_not_index_error by (metis fst_conv)
  from a assms show False
    by (auto simp: read_memory_def read_memory_payload_def split: sum.splits prod.splits
             dest: py_index_error pack_error send_cmd_error simp: r)
qed

section \<open>Negative vCPU ids\<close>

lemma load_program_routed:
  assumes lt: "vcpu_id < int (length (vcpu_map c))"
    and ix: "py_index (vcpu_map c) vcpu_id = Inr (node_idx, local_id)"
    and nd: "node_idx < length (nodes c)"
    and lid: "int local_id < 2 ^ 32"
    and enc: "encode_instrs instrs [] = Inr instr_bytes"
    and cnt: "int (length instrs) < 2 ^ 32"
    and len: "int (length instr_bytes) + 8 < 2 ^ 32"
  shows "load_program vcpu_id instrs c w =
     (case recv_resp (sock (nodes c ! node_idx))
             (w\<lparr>trace := trace w @
                [Sent (sock (nodes c ! node_idx))
                   (request_frame CMD_LOAD_PROG
                      (u32le (int local_id) @ u32le (int (length instrs)) @ instr_bytes))]\<rparr>) of
        (Inl e, w2) \<Rightarrow> (Inl e, c, w2)
      | (Inr ack, w2) \<Rightarrow> (Inr (), c, w2))"
proof -
  let ?s = "sock (nodes c ! node_idx)"
  let ?payload = "u32le (int local_id) @ u32le (int (length instrs)) @ instr_bytes"
  have i2: "py_index (nodes c) (int node_idx) = Inr (nodes c ! node_idx)"
    using nd by (simp add: py_index_valid)
  have p: "pack [Fmt_I, Fmt_I] [int local_id, int (length instrs)] =
      Inr (u32le (int local_id) @ u32le (int (length instrs)))"
    using lid cnt by (simp add: pack_II)
  have sc: "send_cmd ?s CMD_LOAD_PROG ?payload w =
      (Inr (), w\<lparr>trace := trace w @ [Sent ?s (request_frame CMD_LOAD_PROG ?payload)]\<rparr>)"
    using len by (simp add: send_cmd_eq CMD_LOAD_PROG_def)
  show ?thesis
    using lt sc by (simp add: load_program_def ix i2 p enc)
qed

lemma read_memory_routed:
  assumes lt: "vcpu_id < int (length (vcpu_map c))"
    and ix: "py_index (vcpu_map c) vcpu_id = Inr (node_idx, local_id)"
    and nd: "node_idx < length (nodes c)"
    and lid: "int local_id < 2 ^ 32"
    and rng: "0 \<le> offset" "offset < 2 ^ 64" "0 \<le> sz" "sz < 2 ^ 64"
  shows "read_memory vcpu_id offset sz c w =
     (case recv_resp (sock (nodes c ! node_idx))
             (w\<lparr>trace := trace w @
                [Sent (sock (nodes c ! node_idx))
                   (request_frame CMD_READ_MEM
                      (u32le (int local_id) @ [0, 0, 0, 0] @ u64le offset @ u64le sz))]\<rparr>) of
        (Inl e, w2) \<Rightarrow> (Inl e, c, w2)
      | (Inr resp_payload, w2) \<Rightarrow> (Inr resp_payload, c, w2))"
proof -
  let ?s = "sock (nodes c ! node_idx)"
  let ?payload = "u32le (int local_id) @ [0, 0, 0, 0] @ u64le offset @ u64le sz"
  have i2: "py_index (nodes c) (int node_idx) = Inr (nodes c ! node_idx)"
    using nd by (simp add: py_index_valid)
  have p: "read_memory_payload (int local_id) offset sz = Inr ?payload"
    using lid rng by (simp add: read_memory_payload_def pack_IQQ)
  have sc: "send_cmd ?s CMD_READ_MEM ?payload w =
      (Inr (), w\<lparr>trace := trace w @ [Sent ?s (request_frame CMD_READ_MEM ?payload)]\<rparr>)"
    by (simp add: send_cmd_eq CMD_READ_MEM_def)
  show ?thesis
    using lt sc by (simp add: read_memory_def ix i2 p)
qed

lemma case_recv_sent:
  "sent_frames (trace (snd (snd (case recv_resp s w1 of
        (Inl e, w2) \<Rightarrow> (Inl e, c, w2) | (Inr r, w2) \<Rightarrow> (f r, c, w2))))) = sent_frames (trace w1)"
proof -
  obtain r w2 where rr: "recv_resp s w1 = (r, w2)" by (cases "recv_resp s w1")
  then have "sent_frames (trace w2) = sent_frames (trace w1)"
    using recv_resp_sent[of s w1] by simp
  then show ?thesis by (cases r) (simp_all add: rr)
qed


text \<open>
  C9. The range check of \<^verbatim>\<open>load_program\<close> and \<^verbatim>\<open>read_memory\<close> rejects only
  ids that are at least the length of the sharding map. A negative id whose absolute
  value is at most that length passes the check and Python's indexing resolves it to the
  entry at position \<open>len + vcpu_id\<close>: the call behaves exactly as the call with that
  valid id, it does not raise the out-of-range error, and the request goes to the socket
  of that entry's node and carries that entry's local id; the outcome of the call is
  then the outcome of reading that node's response.
\<close>

theorem negative_id_aliases:
  assumes "vcpu_id < 0" and "- vcpu_id \<le> int (length (vcpu_map c))"
  shows "py_index (vcpu_map c) vcpu_id = Inr (vcpu_map c ! nat (int (length (vcpu_map c)) + vcpu_id))
       \<and> load_program vcpu_id instrs c w =
           load_program (int (length (vcpu_map c)) + vcpu_id) instrs c w
       \<and> read_memory vcpu_id offset sz c w =
           read_memory (int (length (vcpu_map c)) + vcpu_id) offset sz c w
       \<and> fst (load_program vcpu_id instrs c w) \<noteq> Inl (IndexError ''vCPU ID out of range'')
       \<and> fst (read_memory vcpu_id offset sz c w) \<noteq> Inl (IndexError ''vCPU ID out of range'')
       \<and> (vcpu_map c ! nat (int (length (vcpu_map c)) + vcpu_id) = (node_idx, local_id)
            \<and> node_idx < length (nodes c) \<and> int local_id < 2 ^ 32 \<longrightarrow>
            (encode_instrs instrs [] = Inr instr_bytes \<and> int (length instrs) < 2 ^ 32
               \<and> int (length instr_bytes) + 8 < 2 ^ 32 \<longrightarrow>
               load_program vcpu_id instrs c w =
                 (case recv_resp (sock (nodes c ! node_idx))
                         (w\<lparr>trace := trace w @
                            [Sent (sock (nodes c ! node_idx))
                               (request_frame CMD_LOAD_PROG
                                  (u32le (int local_id) @ u32le (int (length instrs)) @ instr_bytes))]\<rparr>) of
                    (Inl e, w2) \<Rightarrow> (Inl e, c, w2)
                  | (Inr ack, w2) \<Rightarrow> (Inr (), c, w2))
             \<and> sent_frames (trace (snd (snd (load_program vcpu_id instrs c w)))) =
                 sent_frames (trace w) @
                 [(sock (nodes c ! node_idx),
                   request_frame CMD_LOAD_PROG
                     (u32le (int local_id) @ u32le (int (length instrs)) @ instr_bytes))])
          \<and> (0 \<le> offset \<and> offset < 2 ^ 64 \<and> 0 \<le> sz \<and> sz < 2 ^ 64 \<longrightarrow>
               read_memory vcpu_id offset sz c w =
                 (case recv_resp (sock (nodes c ! node_idx))
                         (w\<lparr>trace := trace w @
                            [Sent (sock (nodes c ! node_idx))
                               (request_frame CMD_READ_MEM
                                  (u32le (int local_id) @ [0, 0, 0, 0] @ u64le offset @ u64le sz))]\<rparr>) of
                    (Inl e, w2) \<Rightarrow> (Inl e, c, w2)
                  | (Inr resp_payload, w2) \<Rightarrow> (Inr resp_payload, c, w2))
             \<and> sent_frames (trace (snd (snd (read_memory vcpu_id offset sz c w)))) =
                 sent_frames (trace w) @
                 [(sock (nodes c ! node_idx),
                   request_frame CMD_READ_MEM
                     (u32le (int local_id) @ [0, 0, 0, 0] @ u64le offset @ u64le sz))]))"
proof -
  let ?n = "int (length (vcpu_map c))"
  let ?s = "sock (nodes c ! node_idx)"
  have neg: "py_index (vcpu_map c) vcpu_id = Inr (vcpu_map c ! nat (?n + vcpu_id))"
    using assms by (rule py_index_negative)
  have pos: "py_index (vcpu_map c) (?n + vcpu_id) = Inr (vcpu_map c ! nat (?n + vcpu_id))"
    using assms by (intro py_index_valid) simp_all
  have lt: "vcpu_id < ?n" using assms by simp
  have lt': "?n + vcpu_id < ?n" using assms by simp
  have A: "load_program vcpu_id instrs c w = load_program (?n + vcpu_id) instrs c w"
    using lt lt' by (simp add: load_program_def neg pos)
  have B: "read_memory vcpu_id offset sz c w = read_memory (?n + vcpu_id) offset sz c w"
    using lt lt' by (simp add: read_memory_def neg pos)
  have C: "fst (load_program vcpu_id instrs c w) \<noteq> Inl (IndexError ''vCPU ID out of range'')"
    by (rule load_program_not_rejected[OF lt])
  have D: "fst (read_memory vcpu_id offset sz c w) \<noteq> Inl (IndexError ''vCPU ID out of range'')"
    by (rule read_memory_not_rejected[OF lt])
  have E: "load_program vcpu_id instrs c w =
             (case recv_resp ?s
                     (w\<lparr>trace := trace w @
                        [Sent ?s (request_frame CMD_LOAD_PROG
                              (u32le (int local_id) @ u32le (int (length instrs)) @ instr_bytes))]\<rparr>) of
                (Inl e, w2) \<Rightarrow> (Inl e, c, w2)
              | (Inr ack, w2) \<Rightarrow> (Inr (), c, w2))
         \<and> sent_frames (trace (snd (snd (load_program vcpu_id instrs c w)))) =
             sent_frames (trace w) @
             [(?s, request_frame CMD_LOAD_PROG
                 (u32le (int local_id) @ u32le (int (length instrs)) @ instr_bytes))]"
    if e: "vcpu_map c ! nat (?n + vcpu_id) = (node_idx, local_id)"
      "node_idx < length (nodes c)" "int local_id < 2 ^ 32"
      and i: "encode_instrs instrs [] = Inr instr_bytes" "int (length instrs) < 2 ^ 32"
        "int (length instr_bytes) + 8 < 2 ^ 32"
  proof -
    have ix: "py_index (vcpu_map c) vcpu_id = Inr (node_idx, local_id)" using neg e(1) by simp
    note R = load_program_routed[OF lt ix e(2) e(3) i, of w]
    show ?thesis
      unfolding R using case_recv_sent[where s = "?s" and c = c and f = "\<lambda>_. Inr ()"]
      by (simp add: sent_frames_append)
  qed
  have F: "read_memory vcpu_id offset sz c w =
             (case recv_resp ?s
                     (w\<lparr>trace := trace w @
                        [Sent ?s (request_frame CMD_READ_MEM
                              (u32le (int local_id) @ [0, 0, 0, 0] @ u64le offset @ u64le sz))]\<rparr>) of
                (Inl e, w2) \<Rightarrow> (Inl e, c, w2)
              | (Inr resp_payload, w2) \<Rightarrow> (Inr resp_payload, c, w2))
         \<and> sent_frames (trace (snd (snd (read_memory vcpu_id offset sz c w)))) =
             sent_frames (trace w) @
             [(?s, request_frame CMD_READ_MEM
                 (u32le (int local_id) @ [0, 0, 0, 0] @ u64le offset @ u64le sz))]"
    if e: "vcpu_map c ! nat (?n + vcpu_id) = (node_idx, local_id)"
      "node_idx < length (nodes c)" "int local_id < 2 ^ 32"
      and i: "0 \<le> offset" "offset < 2 ^ 64" "0 \<le> sz" "sz < 2 ^ 64"
  proof -
    have ix: "py_index (vcpu_map c) vcpu_id = Inr (node_idx, local_id)" using neg e(1) by simp
    note R = read_memory_routed[OF lt ix e(2) e(3) i, of w]
    show ?thesis
      unfolding R using case_recv_sent[where s = "?s" and c = c and f = Inr]
      by (simp add: sent_frames_append)
  qed
  from neg A B C D E F show ?thesis by blast
qed


lemma ex_cluster_facts:
  "length (vcpu_map ex_cluster) = 3" "vcpu_map ex_cluster ! 2 = (1, 0)"
  "length (nodes ex_cluster) = 2" "sock (nodes ex_cluster ! Suc 0) = 4"
  by (simp_all add: ex_cluster_def)

theorem negative_id_aliases_witness:
  "sent_frames (trace (snd (snd (load_program (- 1) [(5, 0, 0, 100)] ex_cluster (ex_net [] []))))) =
     [(4, request_frame CMD_LOAD_PROG (u32le 0 @ u32le 1 @ ([5, 0, 0, 0] @ u32le 100)))]
   \<and> sent_frames (trace (snd (snd (read_memory (- 1) 128 8 ex_cluster (ex_net [] []))))) =
     [(4, request_frame CMD_READ_MEM (u32le 0 @ [0, 0, 0, 0] @ u64le 128 @ u64le 8))]
   \<and> load_program (- 1) [(5, 0, 0, 100)] ex_cluster (ex_net [] []) =
     load_program 2 [(5, 0, 0, 100)] ex_cluster (ex_net [] [])
   \<and> read_memory (- 1) 128 8 ex_cluster (ex_net [] []) =
     read_memory 2 128 8 ex_cluster (ex_net [] [])"
proof -
  have enc: "encode_instrs [(5, 0, 0, 100)] [] = Inr ([5, 0, 0, 0] @ u32le 100)"
    by (simp add: encode_instr_def pack_BBBxI)
  have tr: "trace (ex_net [] []) = []" by (simp add: ex_net_def)
  have h1: "(- 1 :: int) < 0" by simp
  have h2: "- (- 1) \<le> int (length (vcpu_map ex_cluster))" by (simp add: ex_cluster_facts)
  note T = negative_id_aliases[where vcpu_id = "- 1" and c = ex_cluster
        and instrs = "[(5, 0, 0, 100)]" and w = "ex_net [] []" and offset = 128 and sz = 8
        and node_idx = 1 and local_id = 0 and instr_bytes = "[5, 0, 0, 0] @ u32le 100", OF h1 h2]
  note imp = T[THEN conjunct2, THEN conjunct2, THEN conjunct2, THEN conjunct2, THEN conjunct2]
  have P: "vcpu_map ex_cluster ! nat (int (length (vcpu_map ex_cluster)) + - 1) = (1, 0)
      \<and> 1 < length (nodes ex_cluster) \<and> int 0 < 2 ^ 32"
    by (simp add: ex_cluster_facts)
  note both = imp[THEN mp, OF P]
  have Q1: "encode_instrs [(5, 0, 0, 100)] [] = Inr ([5, 0, 0, 0] @ u32le 100)
      \<and> int (length [(5 :: int, 0 :: int, 0 :: int, 100 :: int)]) < 2 ^ 32
      \<and> int (length ([5, 0, 0, 0 :: byte] @ u32le 100)) + 8 < 2 ^ 32"
    using enc by simp
  have Q2: "(0 :: int) \<le> 128 \<and> (128 :: int) < 2 ^ 64 \<and> (0 :: int) \<le> 8 \<and> (8 :: int) < 2 ^ 64"
    by simp
  note R1 = both[THEN conjunct1, THEN mp, OF Q1, THEN conjunct2]
  note R2 = both[THEN conjunct2, THEN mp, OF Q2, THEN conjunct2]
  note A = T[THEN conjunct2, THEN conjunct1]
  note B = T[THEN conjunct2, THEN conjunct2, THEN conjunct1]
  have A': "load_program (- 1) [(5, 0, 0, 100)] ex_cluster (ex_net [] []) =
     load_program 2 [(5, 0, 0, 100)] ex_cluster (ex_net [] [])"
    using A by (simp add: ex_cluster_facts)
  have B': "read_memory (- 1) 128 8 ex_cluster (ex_net [] []) =
     read_memory 2 128 8 ex_cluster (ex_net [] [])"
    using B by (simp add: ex_cluster_facts)
  have R1': "sent_frames (trace (snd (snd (load_program (- 1) [(5, 0, 0, 100)] ex_cluster (ex_net [] []))))) =
     [(4, request_frame CMD_LOAD_PROG (u32le 0 @ u32le 1 @ ([5, 0, 0, 0] @ u32le 100)))]"
    unfolding R1 by (simp add: ex_cluster_facts tr)
  have R2': "sent_frames (trace (snd (snd (read_memory (- 1) 128 8 ex_cluster (ex_net [] []))))) =
     [(4, request_frame CMD_READ_MEM (u32le 0 @ [0, 0, 0, 0] @ u64le 128 @ u64le 8))]"
    unfolding R2 by (simp add: ex_cluster_facts tr)
  from R1' R2' A' B' show ?thesis by blast
qed

section \<open>The payload of a memory read\<close>

lemma read_memory_sent:
  assumes "0 \<le> vcpu_id" "vcpu_id < int (length (vcpu_map c))"
    and "vcpu_map c ! nat vcpu_id = (node_idx, local_id)" "node_idx < length (nodes c)"
    and "int local_id < 2 ^ 32" "0 \<le> offset" "offset < 2 ^ 64" "0 \<le> sz" "sz < 2 ^ 64"
  shows "sent_frames (trace (snd (snd (read_memory vcpu_id offset sz c w)))) =
           sent_frames (trace w) @
           [(sock (nodes c ! node_idx),
             request_frame CMD_READ_MEM
               (u32le (int local_id) @ [0, 0, 0, 0] @ u64le offset @ u64le sz))]"
proof -
  let ?s = "sock (nodes c ! node_idx)"
  let ?payload = "u32le (int local_id) @ [0, 0, 0, 0] @ u64le offset @ u64le sz"
  let ?w1 = "w\<lparr>trace := trace w @ [Sent ?s (request_frame CMD_READ_MEM ?payload)]\<rparr>"
  have i1: "py_index (vcpu_map c) vcpu_id = Inr (node_idx, local_id)"
    using assms by (simp add: py_index_valid)
  have i2: "py_index (nodes c) (int node_idx) = Inr (nodes c ! node_idx)"
    using assms by (simp add: py_index_valid)
  have p: "read_memory_payload (int local_id) offset sz = Inr ?payload"
    using assms by (simp add: read_memory_payload_def pack_IQQ)
  have sc: "send_cmd ?s CMD_READ_MEM ?payload w = (Inr (), ?w1)"
    by (simp add: send_cmd_eq CMD_READ_MEM_def)
  have "read_memory vcpu_id offset sz c w =
          (case recv_resp ?s ?w1 of
             (Inl e, w2) \<Rightarrow> (Inl e, c, w2)
           | (Inr resp_payload, w2) \<Rightarrow> (Inr resp_payload, c, w2))"
    using assms(2) sc by (simp add: read_memory_def i1 i2 p)
  then have "snd (snd (read_memory vcpu_id offset sz c w)) = snd (recv_resp ?s ?w1)"
    by (simp split: prod.splits sum.splits)
  then show ?thesis
    by (simp add: recv_resp_sent sent_frames_append)
qed

text \<open>
  C2, as amended. For a call of \<^verbatim>\<open>read_memory\<close> with a valid vCPU id, a local id
  below \<open>2^32\<close> and offset and size in \<open>[0, 2^64)\<close>, the request sent is the header
  (command 4, payload length 24) followed by a payload of 24 bytes: the local id as u32
  little-endian, four zero padding bytes that align the next field to 8, the offset as
  u64 little-endian and the size as u64 little-endian. A 20-byte layout without
  padding is not what \<^verbatim>\<open>struct.pack('IQQ', ...)\<close> in native mode produces.
\<close>

theorem read_memory_payload_padded:
  assumes "0 \<le> vcpu_id" "vcpu_id < int (length (vcpu_map c))"
    and "vcpu_map c ! nat vcpu_id = (node_idx, local_id)" "node_idx < length (nodes c)"
    and "int local_id < 2 ^ 32" "0 \<le> offset" "offset < 2 ^ 64" "0 \<le> sz" "sz < 2 ^ 64"
  shows "sent_frames (trace (snd (snd (read_memory vcpu_id offset sz c w)))) =
           sent_frames (trace w) @
           [(sock (nodes c ! node_idx),
             u32le 0x56435055 @ u32le 4 @ u32le 0 @ u32le 24 @
             (u32le (int local_id) @ [0, 0, 0, 0] @ u64le offset @ u64le sz))]
       \<and> length (u32le (int local_id) @ [0, 0, 0, 0 :: byte] @ u64le offset @ u64le sz) = 24"
  using read_memory_sent[OF assms, of w]
  by (simp add: request_frame_def MAGIC_def CMD_READ_MEM_def)

theorem read_memory_payload_padded_witness:
  "sent_frames (trace (snd (snd (read_memory 2 128 8 ex_cluster (ex_net [] []))))) =
     [(4, u32le 0x56435055 @ u32le 4 @ u32le 0 @ u32le 24 @
          (u32le 0 @ [0, 0, 0, 0] @ u64le 128 @ u64le 8))]"
  using read_memory_payload_padded[of 2 ex_cluster 1 0 128 8 "ex_net [] []"]
  by (simp add: ex_cluster_def ex_net_def)

theorem read_memory_payload_counterexample:
  "sent_frames (trace (snd (snd (read_memory 2 128 8 ex_cluster (ex_net [] []))))) \<noteq>
     [(4, request_frame CMD_READ_MEM (u32le 0 @ u64le 128 @ u64le 8))]
   \<and> read_memory_payload 0 128 8 \<noteq> Inr (u32le 0 @ u64le 128 @ u64le 8)
   \<and> (case read_memory_payload 0 128 8 of Inr p \<Rightarrow> length p | Inl e \<Rightarrow> 0) = 24"
proof -
  have "sent_frames (trace (snd (snd (read_memory 2 128 8 ex_cluster (ex_net [] []))))) =
     [(4, request_frame CMD_READ_MEM (u32le 0 @ [0, 0, 0, 0] @ u64le 128 @ u64le 8))]"
    using read_memory_sent[of 2 ex_cluster 1 0 128 8 "ex_net [] []"]
    by (simp add: ex_cluster_def ex_net_def)
  moreover have "length (request_frame CMD_READ_MEM (u32le 0 @ [0, 0, 0, 0] @ u64le 128 @ u64le 8))
     \<noteq> length (request_frame CMD_READ_MEM (u32le 0 @ u64le 128 @ u64le 8))"
    by (simp add: request_frame_def)
  moreover have "read_memory_payload 0 128 8 = Inr (u32le 0 @ [0, 0, 0, 0] @ u64le 128 @ u64le 8)"
    by (simp add: read_memory_payload_def pack_IQQ)
  moreover have "length (u32le 0 @ [0, 0, 0, 0 :: byte] @ u64le 128 @ u64le 8)
     \<noteq> length (u32le 0 @ u64le 128 @ u64le 8)" by simp
  ultimately show ?thesis by (auto simp del: le_bytes.simps)
qed

section \<open>Parsing a response\<close>

lemma le_bytes_Nil [simp]: "le_bytes k v = [] \<longleftrightarrow> k = 0"
  by (cases k) simp_all

lemma parse_str_int: "0 \<le> status \<Longrightarrow> int (parse_nat (str_int status)) = status"
  by (simp add: str_int_def parse_nat_str_nat)

lemma recv_resp_parsed:
  assumes op: "open_sock w s"
    and pend: "pending w s = u32le status @ u32le req_id @ u32le len @ body"
    and st: "0 \<le> status" "status < 2 ^ 32" and ln: "0 \<le> len" "len < 2 ^ 32"
  shows "recv_resp s w =
     (if status \<noteq> 200
      then (Inl (RuntimeError (''Remote Error: '' @ str_int status)), consume s 12 w)
      else if len > 0
      then (case recv_all s (nat len) (consume s 12 w) of
              (Inl e, w2) \<Rightarrow> (Inl e, w2)
            | (Inr d, w2) \<Rightarrow> (Inr (Some d), w2))
      else (Inr None, consume s 12 w))"
    and "open_sock (consume s 12 w) s" and "pending (consume s 12 w) s = body"
proof -
  have noc: "[] \<notin> set (inbox w s)" using op by (simp add: open_sock_def)
  have cc: "concat (inbox w s) = u32le status @ u32le req_id @ u32le len @ body"
    using pend by (simp add: pending_def)
  have l12: "12 \<le> length (concat (inbox w s))" by (simp add: cc)
  have a: "from_le (u32le status) = status" using st by (simp add: from_le_le_bytes)
  have b: "from_le (u32le len) = len" using ln by (simp add: from_le_le_bytes)
  show "recv_resp s w =
     (if status \<noteq> 200
      then (Inl (RuntimeError (''Remote Error: '' @ str_int status)), consume s 12 w)
      else if len > 0
      then (case recv_all s (nat len) (consume s 12 w) of
              (Inl e, w2) \<Rightarrow> (Inl e, w2)
            | (Inr d, w2) \<Rightarrow> (Inr (Some d), w2))
      else (Inr None, consume s 12 w))"
    unfolding recv_resp_header[OF noc l12] cc by (simp add: Let_def a b)
  show "open_sock (consume s 12 w) s"
    using noc by (simp add: open_sock_def inbox_consume rest_packets_no_close)
  show "pending (consume s 12 w) s = body"
    by (simp add: pending_def inbox_consume concat_rest_packets cc)
qed

lemma recv_all_pending:
  assumes "open_sock w s" and "n \<le> length (pending w s)"
  shows "recv_all s n w = (Inr (take n (pending w s)), consume s n w)"
    and "open_sock (consume s n w) s" and "pending (consume s n w) s = drop n (pending w s)"
  using assms
  by (simp_all add: open_sock_def pending_def recv_all_ok inbox_consume rest_packets_no_close
        concat_rest_packets)

section \<open>The response status\<close>

text \<open>
  C4. When the status field of a response is not 200, \<^verbatim>\<open>_recv_resp\<close> raises a
  \<^verbatim>\<open>RuntimeError\<close> whose message ends with the decimal status, so the numeric code
  can be read back from it, and no payload is returned. When the status is 200 and the
  payload has arrived, it returns the payload, or \<^verbatim>\<open>None\<close> when the payload length
  is 0, and leaves the bytes after the response queued.
\<close>

theorem recv_resp_status:
  assumes "open_sock w s"
    and "pending w s = u32le status @ u32le req_id @ u32le len @ body"
    and "0 \<le> status" "status < 2 ^ 32" and "0 \<le> len" "len < 2 ^ 32"
  shows "(status \<noteq> 200 \<longrightarrow>
            fst (recv_resp s w) = Inl (RuntimeError (''Remote Error: '' @ str_int status)) \<and>
            int (parse_nat (drop 14 (''Remote Error: '' @ str_int status))) = status)
       \<and> (status = 200 \<and> nat len \<le> length body \<longrightarrow>
            fst (recv_resp s w) = Inr (if len = 0 then None else Some (take (nat len) body)) \<and>
            pending (snd (recv_resp s w)) s = drop (nat len) body)"
proof -
  note p = recv_resp_parsed[OF assms]
  have "status = 200 \<Longrightarrow> nat len \<le> length body \<Longrightarrow> 0 < len \<Longrightarrow>
      recv_resp s w = (Inr (Some (take (nat len) body)), consume s (nat len) (consume s 12 w))"
    using recv_all_pending(1)[OF p(2), of "nat len"] p(3) by (simp add: p(1))
  moreover have "pending (consume s (nat len) (consume s 12 w)) s = drop (nat len) body"
    if "nat len \<le> length body"
    using recv_all_pending(3)[OF p(2), of "nat len"] p(3) that by simp
  ultimately show ?thesis
    using assms(3,5) p(3) by (auto simp: p(1) parse_str_int)
qed

theorem recv_resp_status_witness:
  "fst (recv_resp 3 (ex_net [u32le 500 @ u32le 0 @ u32le 2 @ [7, 9]] [])) =
     Inl (RuntimeError (''Remote Error: '' @ str_int 500))
   \<and> int (parse_nat (drop 14 (''Remote Error: '' @ str_int 500))) = 500
   \<and> fst (recv_resp 4 (ex_net [] [u32le 200 @ u32le 0, u32le 2 @ [7, 9, 1]])) = Inr (Some [7, 9])
   \<and> fst (recv_resp 4 (ex_net [] [u32le 200 @ u32le 0 @ u32le 0])) = Inr None"
  using recv_resp_status[of "ex_net [u32le 500 @ u32le 0 @ u32le 2 @ [7, 9]] []" 3 500 0 2 "[7, 9]"]
    recv_resp_status[of "ex_net [] [u32le 200 @ u32le 0, u32le 2 @ [7, 9, 1]]" 4 200 0 2 "[7, 9, 1]"]
    recv_resp_status[of "ex_net [] [u32le 200 @ u32le 0 @ u32le 0]" 4 200 0 0 "[]"]
  by (simp add: ex_net_def open_sock_def pending_def)


lemma send_cmd_inbox: "inbox (snd (send_cmd s cmd payload w)) = inbox w"
  by (simp add: send_cmd_eq)

section \<open>An error response with a payload\<close>

text \<open>
  C10. When a response has a status other than 200 and a payload that is not empty,
  \<^verbatim>\<open>_recv_resp\<close> raises after reading the 12 header bytes only: the payload stays
  queued on the socket. The next command on that socket then takes the first 12 queued
  bytes, which begin with the unread payload, for the header of its own response: their
  first four bytes are its status and bytes 8 to 11 its payload length.
\<close>

theorem error_payload_left_unread:
  assumes "open_sock w s"
    and "pending w s = u32le status @ u32le req_id @ u32le (int (length payload)) @ payload @ rest"
    and "0 \<le> status" "status < 2 ^ 32" "status \<noteq> 200"
    and "payload \<noteq> []" "int (length payload) < 2 ^ 32"
  shows "recv_resp s w =
           (Inl (RuntimeError (''Remote Error: '' @ str_int status)), consume s 12 w)
       \<and> pending (consume s 12 w) s = payload @ rest
       \<and> (12 \<le> length (payload @ rest) \<longrightarrow>
            (let w2 = snd (send_cmd s cmd p (consume s 12 w));
                 st = from_le (take 4 (payload @ rest));
                 ln = from_le (take 4 (drop 8 (payload @ rest)))
             in (st \<noteq> 200 \<longrightarrow>
                   fst (recv_resp s w2) = Inl (RuntimeError (''Remote Error: '' @ str_int st)))
              \<and> (st = 200 \<and> ln = 0 \<longrightarrow> fst (recv_resp s w2) = Inr None)))"
proof -
  note p = recv_resp_parsed[OF assms(1,2,3,4) _ assms(7)]
  have r1: "recv_resp s w =
      (Inl (RuntimeError (''Remote Error: '' @ str_int status)), consume s 12 w)"
    using p(1) assms(5) by simp
  have r2: "pending (consume s 12 w) s = payload @ rest" using p(3) by simp
  have r3: "fst (recv_resp s (snd (send_cmd s cmd p (consume s 12 w)))) =
        (let st = from_le (take 4 (payload @ rest));
             ln = from_le (take 4 (drop 8 (payload @ rest)))
         in if st \<noteq> 200 then Inl (RuntimeError (''Remote Error: '' @ str_int st))
            else if ln > 0
            then fst (case recv_all s (nat ln)
                        (consume s 12 (snd (send_cmd s cmd p (consume s 12 w)))) of
                   (Inl e, w2) \<Rightarrow> (Inl e, w2)
                 | (Inr d, w2) \<Rightarrow> (Inr (Some d), w2))
            else Inr None)"
    if l: "12 \<le> length (payload @ rest)"
  proof -
    let ?w2 = "snd (send_cmd s cmd p (consume s 12 w))"
    have ib: "inbox ?w2 = inbox (consume s 12 w)" by (rule send_cmd_inbox)
    have noc: "[] \<notin> set (inbox ?w2 s)" using p(2) by (simp add: ib open_sock_def)
    have cc: "concat (inbox ?w2 s) = payload @ rest" using r2 by (simp add: ib pending_def)
    have l12: "12 \<le> length (concat (inbox ?w2 s))" using l by (simp add: cc)
    have g1: "\<And>xs :: byte list. take 4 (take 12 xs) = take 4 xs" by simp
    have g2: "\<And>xs :: byte list. take 4 (drop 8 (take 12 xs)) = take 4 (drop 8 xs)"
      by (simp add: drop_take)
    note t1 = g1[of "payload @ rest"] and t2 = g2[of "payload @ rest"]
    show ?thesis
      unfolding recv_resp_header[OF noc l12] cc Let_def t1 t2 by simp
  qed
  show ?thesis
    using r1 r2 r3 by (simp add: Let_def)
qed

theorem error_payload_left_unread_witness:
  "recv_resp 3 (ex_net [u32le 500 @ u32le 0 @ u32le 12 @ (u32le 200 @ u32le 7 @ u32le 0)] []) =
     (Inl (RuntimeError (''Remote Error: '' @ str_int 500)),
      consume 3 12 (ex_net [u32le 500 @ u32le 0 @ u32le 12 @ (u32le 200 @ u32le 7 @ u32le 0)] []))
   \<and> fst (recv_resp 3 (snd (send_cmd 3 CMD_GET_STATS []
        (consume 3 12
           (ex_net [u32le 500 @ u32le 0 @ u32le 12 @ (u32le 200 @ u32le 7 @ u32le 0)] []))))) =
     Inr None"
proof -
  have a: "from_le (u32le 200) = 200" by (rule from_le_le_bytes) simp_all
  have b: "from_le (u32le 0) = 0" by (rule from_le_le_bytes) simp_all
  show ?thesis
    using error_payload_left_unread[of
        "ex_net [u32le 500 @ u32le 0 @ u32le 12 @ (u32le 200 @ u32le 7 @ u32le 0)] []" 3 500 0
        "u32le 200 @ u32le 7 @ u32le 0" "[]" CMD_GET_STATS "[]"]
    by (simp add: ex_net_def open_sock_def pending_def a b Let_def)
qed

section \<open>The loop of spawn\<close>

declare spawn_loop.simps [simp del]

lemma spawn_step_0: "spawn_step i 0 c = c"
  by (simp add: spawn_step_def)

lemma spawn_loop_done:
  "\<not> i < length (nodes c) \<Longrightarrow> spawn_loop cpn r mem i c w = (Inr (), c, w)"
  by (simp add: spawn_loop.simps[of cpn r mem i c w])

lemma spawn_loop_unfold:
  assumes "i < length (nodes c)" and "cnt = cpn + (if int i < r then 1 else 0)"
  shows "spawn_loop cpn r mem i c w =
     (if cnt = 0 then spawn_loop cpn r mem (Suc i) c w
      else
        (case pack [Fmt_I, Fmt_I] [cnt, mem] of
           Inl e \<Rightarrow> (Inl e, c, w)
         | Inr payload \<Rightarrow>
             (case send_cmd (sock (nodes c ! i)) CMD_SPAWN_VCPU payload w of
                (Inl e, w1) \<Rightarrow> (Inl e, c, w1)
              | (Inr u, w1) \<Rightarrow>
                  (case recv_resp (sock (nodes c ! i)) w1 of
                     (Inl e, w2) \<Rightarrow> (Inl e, c, w2)
                   | (Inr ack, w2) \<Rightarrow>
                       spawn_loop cpn r mem (Suc i) (spawn_step i cnt c) w2))))"
  unfolding assms(2)
  by (subst spawn_loop.simps) (simp only: assms(1) if_True Let_def spawn_step_def)

lemma spawn_loop_step:
  assumes i: "i < length (nodes c)"
    and ok: "spawn_loop cpn r mem i c w = (Inr (), c', w')"
  shows "\<exists>w1. spawn_loop cpn r mem (Suc i) (spawn_step i (cpn + (if int i < r then 1 else 0)) c) w1
               = (Inr (), c', w')
            \<and> 0 \<le> cpn + (if int i < r then 1 else 0)
            \<and> sent_frames (trace w1) = sent_frames (trace w) @
                 (if cpn + (if int i < r then 1 else 0) = 0 then []
                  else [(sock (nodes c ! i),
                         request_frame CMD_SPAWN_VCPU
                           (u32le (cpn + (if int i < r then 1 else 0)) @ u32le mem))])"
proof -
  define cnt where "cnt = cpn + (if int i < r then 1 else 0)"
  show ?thesis
  proof (cases "cnt = 0")
    case True
    with ok have "spawn_loop cpn r mem (Suc i) c w = (Inr (), c', w')"
      unfolding spawn_loop_unfold[OF i cnt_def] by simp
    with True show ?thesis
      unfolding cnt_def[symmetric] by (auto simp: spawn_step_0)
  next
    case False
    let ?s = "sock (nodes c ! i)"
    from ok False have ok2:
      "(case pack [Fmt_I, Fmt_I] [cnt, mem] of
          Inl e \<Rightarrow> (Inl e, c, w)
        | Inr payload \<Rightarrow>
            (case send_cmd ?s CMD_SPAWN_VCPU payload w of
               (Inl e, w1) \<Rightarrow> (Inl e, c, w1)
             | (Inr u, w1) \<Rightarrow>
                 (case recv_resp ?s w1 of
                    (Inl e, w2) \<Rightarrow> (Inl e, c, w2)
                  | (Inr ack, w2) \<Rightarrow>
                      spawn_loop cpn r mem (Suc i) (spawn_step i cnt c) w2))) = (Inr (), c', w')"
      unfolding spawn_loop_unfold[OF i cnt_def] by simp
    then obtain payload where pk: "pack [Fmt_I, Fmt_I] [cnt, mem] = Inr payload"
      by (cases "pack [Fmt_I, Fmt_I] [cnt, mem]") auto
    then have rng: "0 \<le> cnt" and pl: "payload = u32le cnt @ u32le mem"
      by (auto simp: pack_II split: if_splits)
    obtain r1 w1 where sc: "send_cmd ?s CMD_SPAWN_VCPU payload w = (r1, w1)"
      by (cases "send_cmd ?s CMD_SPAWN_VCPU payload w")
    with ok2 pk obtain u where r1: "r1 = Inr u" by (cases r1) auto
    have w1: "w1 = w\<lparr>trace := trace w @ [Sent ?s (request_frame CMD_SPAWN_VCPU payload)]\<rparr>"
      using sc r1 by (auto simp: send_cmd_eq split: if_splits)
    obtain r2 w2 where rr: "recv_resp ?s w1 = (r2, w2)" by (cases "recv_resp ?s w1")
    with ok2 pk sc r1 obtain ack where r2: "r2 = Inr ack" by (cases r2) auto
    have fin: "spawn_loop cpn r mem (Suc i) (spawn_step i cnt c) w2 = (Inr (), c', w')"
      using ok2 pk sc r1 rr r2 by simp
    have "sent_frames (trace w2) = sent_frames (trace w1)"
      using recv_resp_sent[of ?s w1] rr by simp
    then have "sent_frames (trace w2) = sent_frames (trace w) @
        [(?s, request_frame CMD_SPAWN_VCPU (u32le cnt @ u32le mem))]"
      by (simp add: w1 sent_frames_append pl)
    with fin rng False show ?thesis
      unfolding cnt_def[symmetric] by auto
  qed
qed


lemma nodes_spawn_step:
  "length (nodes (spawn_step i cnt c)) = length (nodes c)"
  "j < length (nodes c) \<Longrightarrow>
     nodes (spawn_step i cnt c) ! j =
       (if j = i then (nodes c ! j)\<lparr>vcpu_count := vcpu_count (nodes c ! j) + cnt\<rparr>
        else nodes c ! j)"
  "vcpu_map (spawn_step i cnt c) = vcpu_map c @ map (Pair i) [0..<nat cnt]"
  by (auto simp: spawn_step_def)

lemma spawn_loop_ok:
  assumes "spawn_loop cpn r mem i c w = (Inr (), c', w')" and "i \<le> length (nodes c)"
  shows "length (nodes c') = length (nodes c)
       \<and> vcpu_map c' = vcpu_map c @
            concat (map (\<lambda>j. map (Pair j) [0..<nat (loop_count cpn r j)]) [i..<length (nodes c)])
       \<and> (\<forall>j<length (nodes c). nodes c' ! j =
            (if i \<le> j
             then (nodes c ! j)\<lparr>vcpu_count := vcpu_count (nodes c ! j) + loop_count cpn r j\<rparr>
             else nodes c ! j))
       \<and> (\<forall>j. i \<le> j \<and> j < length (nodes c) \<longrightarrow> 0 \<le> loop_count cpn r j)
       \<and> sent_frames (trace w') = sent_frames (trace w) @
            concat (map (spawn_frames cpn r mem (nodes c)) [i..<length (nodes c)])"
  using assms
proof (induction "length (nodes c) - i" arbitrary: i c w)
  case 0
  then have "\<not> i < length (nodes c)" by simp
  with "0.prems" have "c' = c" "w' = w" by (simp_all add: spawn_loop_done)
  with 0 show ?case by simp
next
  case (Suc k)
  then have i: "i < length (nodes c)" by simp
  let ?cnt = "loop_count cpn r i"
  let ?c1 = "spawn_step i ?cnt c"
  from spawn_loop_step[OF i Suc.prems(1)] obtain w1 where
    rec: "spawn_loop cpn r mem (Suc i) ?c1 w1 = (Inr (), c', w')"
    and nn: "0 \<le> ?cnt"
    and sf: "sent_frames (trace w1) = sent_frames (trace w) @ spawn_frames cpn r mem (nodes c) i"
    unfolding loop_count_def spawn_frames_def by blast
  have len1: "length (nodes ?c1) = length (nodes c)" by (rule nodes_spawn_step)
  have k: "k = length (nodes ?c1) - Suc i" using Suc.hyps(2) by (simp add: len1)
  have le: "Suc i \<le> length (nodes ?c1)" using i by (simp add: len1)
  note IH = Suc.hyps(1)[OF k rec le, unfolded len1]
  have up: "[i..<length (nodes c)] = i # [Suc i..<length (nodes c)]"
    using i by (simp add: upt_conv_Cons)
  have fr: "map (spawn_frames cpn r mem (nodes ?c1)) [Suc i..<length (nodes c)] =
            map (spawn_frames cpn r mem (nodes c)) [Suc i..<length (nodes c)]"
    by (rule map_cong) (auto simp: spawn_frames_def nodes_spawn_step)
  have A: "length (nodes c') = length (nodes c)" using IH by simp
  have B: "vcpu_map c' = vcpu_map c @
      concat (map (\<lambda>j. map (Pair j) [0..<nat (loop_count cpn r j)]) [i..<length (nodes c)])"
    using IH by (simp add: up nodes_spawn_step)
  have C: "\<forall>j<length (nodes c). nodes c' ! j =
      (if i \<le> j
       then (nodes c ! j)\<lparr>vcpu_count := vcpu_count (nodes c ! j) + loop_count cpn r j\<rparr>
       else nodes c ! j)"
  proof (intro allI impI)
    fix j assume j: "j < length (nodes c)"
    from IH j have "nodes c' ! j =
      (if Suc i \<le> j
       then (nodes ?c1 ! j)\<lparr>vcpu_count := vcpu_count (nodes ?c1 ! j) + loop_count cpn r j\<rparr>
       else nodes ?c1 ! j)" by simp
    then show "nodes c' ! j =
      (if i \<le> j
       then (nodes c ! j)\<lparr>vcpu_count := vcpu_count (nodes c ! j) + loop_count cpn r j\<rparr>
       else nodes c ! j)"
      using j by (cases "j = i") (auto simp: nodes_spawn_step)
  qed
  have D: "\<forall>j. i \<le> j \<and> j < length (nodes c) \<longrightarrow> 0 \<le> loop_count cpn r j"
  proof (intro allI impI)
    fix j assume "i \<le> j \<and> j < length (nodes c)"
    then consider "j = i" | "Suc i \<le> j \<and> j < length (nodes c)" by linarith
    then show "0 \<le> loop_count cpn r j" using nn IH by cases auto
  qed
  have E: "sent_frames (trace w') = sent_frames (trace w) @
      concat (map (spawn_frames cpn r mem (nodes c)) [i..<length (nodes c)])"
    using IH by (simp add: sf up fr)
  from A B C D E show ?case by blast
qed

lemma loop_count_share:
  "loop_count (t div int M) (t mod int M) j = spec_share t M j"
  by (simp add: loop_count_def spec_share_def)

lemma sum_indicator: "(\<Sum>i<M. if i < n then (1::int) else 0) = int (min n M)"
  by (induction M) auto

lemma sum_spec_share:
  assumes "0 < M" and "0 \<le> t"
  shows "(\<Sum>i<M. spec_share t M i) = t"
proof -
  let ?r = "t mod int M"
  have r: "0 \<le> ?r" "?r < int M" using assms by simp_all
  have "(\<Sum>i<M. spec_share t M i) = (\<Sum>i<M. t div int M + (if i < nat ?r then 1 else 0))"
    by (rule sum.cong) (auto simp: spec_share_def)
  also have "\<dots> = int M * (t div int M) + int (min (nat ?r) M)"
    by (simp add: sum.distrib sum_indicator)
  also have "\<dots> = int M * (t div int M) + ?r" using r by simp
  also have "\<dots> = t" by simp
  finally show ?thesis .
qed

lemma larger_share_set:
  assumes "0 < M" and "0 \<le> t"
  shows "{i. i < M \<and> spec_share t M i = t div int M + 1} = {i. i < nat (t mod int M)}"
proof -
  have r: "0 \<le> t mod int M" "t mod int M < int M" using assms by simp_all
  then show ?thesis by (auto simp: spec_share_def)
qed

lemma spawn_ok:
  assumes ne: "nodes c \<noteq> []" and ok: "spawn t mem c w = (Inr (), c', w')"
  shows "length (nodes c') = length (nodes c)"
    and "vcpu_map c' = vcpu_map c @ spec_segment t (length (nodes c))"
    and "\<And>j. j < length (nodes c) \<Longrightarrow>
           nodes c' ! j =
             (nodes c ! j)\<lparr>vcpu_count := vcpu_count (nodes c ! j) + spec_share t (length (nodes c)) j\<rparr>"
    and "\<And>j. j < length (nodes c) \<Longrightarrow> 0 \<le> spec_share t (length (nodes c)) j"
    and "sent_frames (trace w') = sent_frames (trace w) @
           concat (map (\<lambda>j. if spec_share t (length (nodes c)) j = 0 then []
                             else [(sock (nodes c ! j),
                                    request_frame CMD_SPAWN_VCPU
                                      (u32le (spec_share t (length (nodes c)) j) @ u32le mem))])
                       [0..<length (nodes c)])"
proof -
  let ?M = "length (nodes c)"
  from ne ok have "spawn_loop (t div int ?M) (t mod int ?M) mem 0 c w = (Inr (), c', w')"
    by (simp add: spawn_def Let_def)
  from spawn_loop_ok[OF this] have L:
    "length (nodes c') = ?M"
    "vcpu_map c' = vcpu_map c @
       concat (map (\<lambda>j. map (Pair j) [0..<nat (spec_share t ?M j)]) [0..<?M])"
    "\<forall>j<?M. nodes c' ! j =
       (nodes c ! j)\<lparr>vcpu_count := vcpu_count (nodes c ! j) + spec_share t ?M j\<rparr>"
    "\<forall>j. j < ?M \<longrightarrow> 0 \<le> spec_share t ?M j"
    "sent_frames (trace w') = sent_frames (trace w) @
       concat (map (spawn_frames (t div int ?M) (t mod int ?M) mem (nodes c)) [0..<?M])"
    by (simp_all add: loop_count_share)
  show "length (nodes c') = ?M" by (rule L(1))
  show "vcpu_map c' = vcpu_map c @ spec_segment t ?M" using L(2) by (simp add: spec_segment_def)
  show "\<And>j. j < ?M \<Longrightarrow> nodes c' ! j =
       (nodes c ! j)\<lparr>vcpu_count := vcpu_count (nodes c ! j) + spec_share t ?M j\<rparr>"
    using L(3) by simp
  show "\<And>j. j < ?M \<Longrightarrow> 0 \<le> spec_share t ?M j" using L(4) by simp
  have "spawn_frames (t div int ?M) (t mod int ?M) mem (nodes c) =
        (\<lambda>j. if spec_share t ?M j = 0 then []
              else [(sock (nodes c ! j),
                     request_frame CMD_SPAWN_VCPU (u32le (spec_share t ?M j) @ u32le mem))])"
    by (rule ext) (simp add: spawn_frames_def loop_count_share)
  with L(5) show "sent_frames (trace w') = sent_frames (trace w) @
           concat (map (\<lambda>j. if spec_share t ?M j = 0 then []
                             else [(sock (nodes c ! j),
                                    request_frame CMD_SPAWN_VCPU
                                      (u32le (spec_share t ?M j) @ u32le mem))])
                       [0..<?M])" by simp
qed


section \<open>Sharding\<close>

text \<open>
  C1. With \<open>M \<ge> 1\<close> connected nodes and \<open>total_vcpus \<ge> 0\<close>, a \<^verbatim>\<open>spawn\<close> call
  that returns has assigned node \<open>i\<close> exactly \<open>total_vcpus div M + 1\<close> vCPUs if
  \<open>i < total_vcpus mod M\<close> and \<open>total_vcpus div M\<close> otherwise: this is what it adds to
  the node's \<^verbatim>\<open>vcpu_count\<close> and what the \<^verbatim>\<open>SPAWN_VCPU\<close> request to the node
  carries (no request for a count of 0). The counts sum to \<open>total_vcpus\<close>, and the
  nodes with the larger count are exactly the \<open>total_vcpus mod M\<close> lowest-indexed ones.
\<close>

theorem spawn_shares:
  assumes "nodes c \<noteq> []" and "0 \<le> total_vcpus"
    and "spawn total_vcpus mem c w = (Inr (), c', w')"
  shows "length (nodes c') = length (nodes c)
       \<and> (\<forall>i<length (nodes c).
            vcpu_count (nodes c' ! i) - vcpu_count (nodes c ! i) =
              (if int i < total_vcpus mod int (length (nodes c))
               then total_vcpus div int (length (nodes c)) + 1
               else total_vcpus div int (length (nodes c))))
       \<and> (\<Sum>i<length (nodes c). vcpu_count (nodes c' ! i) - vcpu_count (nodes c ! i)) = total_vcpus
       \<and> {i. i < length (nodes c) \<and>
              vcpu_count (nodes c' ! i) - vcpu_count (nodes c ! i) =
                total_vcpus div int (length (nodes c)) + 1}
           = {i. i < nat (total_vcpus mod int (length (nodes c)))}
       \<and> card {i. i < length (nodes c) \<and>
              vcpu_count (nodes c' ! i) - vcpu_count (nodes c ! i) =
                total_vcpus div int (length (nodes c)) + 1}
           = nat (total_vcpus mod int (length (nodes c)))
       \<and> sent_frames (trace w') = sent_frames (trace w) @
           concat (map (\<lambda>i. if spec_share total_vcpus (length (nodes c)) i = 0 then []
                             else [(sock (nodes c ! i),
                                    request_frame CMD_SPAWN_VCPU
                                      (u32le (spec_share total_vcpus (length (nodes c)) i) @ u32le mem))])
                       [0..<length (nodes c)])"
proof -
  let ?M = "length (nodes c)"
  note S = spawn_ok[OF assms(1,3)]
  have M: "0 < ?M" using assms(1) by simp
  have d: "vcpu_count (nodes c' ! i) - vcpu_count (nodes c ! i) = spec_share total_vcpus ?M i"
    if "i < ?M" for i using S(3)[OF that] by simp
  have A: "\<forall>i<?M. vcpu_count (nodes c' ! i) - vcpu_count (nodes c ! i) =
      (if int i < total_vcpus mod int ?M then total_vcpus div int ?M + 1
       else total_vcpus div int ?M)"
    using d by (simp add: spec_share_def)
  have "(\<Sum>i<?M. vcpu_count (nodes c' ! i) - vcpu_count (nodes c ! i)) =
        (\<Sum>i<?M. spec_share total_vcpus ?M i)"
    by (rule sum.cong) (simp_all add: d)
  then have B: "(\<Sum>i<?M. vcpu_count (nodes c' ! i) - vcpu_count (nodes c ! i)) = total_vcpus"
    by (simp add: sum_spec_share[OF M assms(2)])
  have "{i. i < ?M \<and> vcpu_count (nodes c' ! i) - vcpu_count (nodes c ! i) =
            total_vcpus div int ?M + 1}
      = {i. i < ?M \<and> spec_share total_vcpus ?M i = total_vcpus div int ?M + 1}"
    using d by auto
  then have C: "{i. i < ?M \<and> vcpu_count (nodes c' ! i) - vcpu_count (nodes c ! i) =
            total_vcpus div int ?M + 1} = {i. i < nat (total_vcpus mod int ?M)}"
    by (simp add: larger_share_set[OF M assms(2)])
  have D: "card {i. i < ?M \<and> vcpu_count (nodes c' ! i) - vcpu_count (nodes c ! i) =
            total_vcpus div int ?M + 1} = nat (total_vcpus mod int ?M)"
    unfolding C by simp
  from S(1) A B C D S(5) show ?thesis by blast
qed

lemma ex_spawn_runs: "fst (spawn 3 64 ex_fresh
     (ex_net [u32le 200 @ u32le 0 @ u32le 0] [u32le 200 @ u32le 0 @ u32le 0])) = Inr ()"
proof -
  have a: "from_le (u32le 200) = 200" by (rule from_le_le_bytes) simp_all
  have b: "from_le (u32le 0) = 0" by (rule from_le_le_bytes) simp_all
  show ?thesis
    by (simp add: spawn_def ex_fresh_def ex_net_def Let_def
          spawn_loop_unfold[OF _ refl] spawn_loop_done spawn_step_def
          pack_II send_cmd_eq CMD_SPAWN_VCPU_def recv_resp_header inbox_consume a b)
qed


theorem spawn_shares_witness:
  "length (nodes (fst (snd (spawn 3 64 ex_fresh
      (ex_net [u32le 200 @ u32le 0 @ u32le 0] [u32le 200 @ u32le 0 @ u32le 0]))))) = 2
   \<and> vcpu_count (nodes (fst (snd (spawn 3 64 ex_fresh
      (ex_net [u32le 200 @ u32le 0 @ u32le 0] [u32le 200 @ u32le 0 @ u32le 0])))) ! 0) = 2
   \<and> vcpu_count (nodes (fst (snd (spawn 3 64 ex_fresh
      (ex_net [u32le 200 @ u32le 0 @ u32le 0] [u32le 200 @ u32le 0 @ u32le 0])))) ! 1) = 1"
proof -
  let ?N = "ex_net [u32le 200 @ u32le 0 @ u32le 0] [u32le 200 @ u32le 0 @ u32le 0]"
  let ?c' = "fst (snd (spawn 3 64 ex_fresh ?N))"
  let ?w' = "snd (snd (spawn 3 64 ex_fresh ?N))"
  have h: "spawn 3 64 ex_fresh ?N = (Inr (), ?c', ?w')"
    using ex_spawn_runs by (simp add: prod_eq_iff)
  have ne: "nodes ex_fresh \<noteq> []" by (simp add: ex_fresh_def)
  have len: "length (nodes ex_fresh) = 2" by (simp add: ex_fresh_def)
  from spawn_shares[OF ne _ h] have
    "length (nodes ?c') = 2"
    "\<forall>i<2. vcpu_count (nodes ?c' ! i) - vcpu_count (nodes ex_fresh ! i) =
        (if int i < 3 mod 2 then 3 div 2 + 1 else 3 div 2)"
    by (simp_all add: len)
  note A = this
  have z: "(0::nat) < 2" "(1::nat) < 2" by simp_all
  from A(2)[rule_format, OF z(1)] A(2)[rule_format, OF z(2)] A(1)
  show ?thesis by (simp add: ex_fresh_def)
qed

section \<open>The sharding map\<close>



















section \<open>Telemetry\<close>

lemma get_stats_step:
  assumes op: "open_sock w (sock n)"
    and pend: "pending w (sock n) = response_bytes 200 rid (u64le a @ u64le b) @ rest"
    and rng: "0 \<le> a" "a < 2 ^ 64" "0 \<le> b" "b < 2 ^ 64"
  shows "get_telemetry_loop (n # ns) ti tg w = get_telemetry_loop ns (ti + a) (tg + b) (after_stats w n)"
proof -
  let ?s = "sock n"
  let ?w1 = "w\<lparr>trace := trace w @ [Sent ?s (request_frame CMD_GET_STATS [])]\<rparr>"
  have sc: "send_cmd ?s CMD_GET_STATS [] w = (Inr (), ?w1)"
    by (simp add: send_cmd_eq CMD_GET_STATS_def)
  have op1: "open_sock ?w1 ?s" using op by (simp add: open_sock_def)
  have pend1: "pending ?w1 ?s = u32le 200 @ u32le rid @ u32le 16 @ ((u64le a @ u64le b) @ rest)"
    using pend by (simp add: pending_def response_bytes_def)
  note P = recv_resp_parsed[OF op1 pend1]
  have l16: "16 \<le> length (pending (consume ?s 12 ?w1) ?s)" using P(3) by simp
  note Q = recv_all_pending[OF P(2) l16]
  have rr: "recv_resp ?s ?w1 = (Inr (Some (u64le a @ u64le b)), consume ?s 16 (consume ?s 12 ?w1))"
    using P(1) Q(1) P(3) by simp
  have st: "consume ?s 16 (consume ?s 12 ?w1) = after_stats w n"
    by (simp add: consume_def after_stats_def stats_exchange_def)
  have fa: "from_le (u64le a) = a" and fb: "from_le (u64le b) = b"
    using rng by (simp_all add: from_le_le_bytes)
  have up: "unpack [Fmt_Q, Fmt_Q] (u64le a @ u64le b) = Inr [a, b]"
    by (simp add: unpack_QQ fa fb)
  show ?thesis
    by (simp add: sc rr st up)
qed

lemma after_stats_facts:
  "h \<noteq> sock n \<Longrightarrow> inbox (after_stats w n) h = inbox w h"
  "trace (after_stats w n) = trace w @ stats_exchange w n"
  "pending (after_stats w n) (sock n) = drop 28 (pending w (sock n))"
  by (simp_all add: after_stats_def pending_def concat_rest_packets)


lemma length_stats_reply [simp]: "length (stats_reply rid a b) = 28"
  by (simp add: stats_reply_def response_bytes_def)

lemma get_telemetry_loop_ok:
  assumes "distinct (map sock ns)" and "\<forall>n\<in>set ns. stats_ready rid ins gpu rest w n"
  shows "\<exists>w'. get_telemetry_loop ns ti tg w =
            (Inr \<lparr>instructions = ti + (\<Sum>n\<leftarrow>ns. ins (sock n)),
                  gpu_offloads = tg + (\<Sum>n\<leftarrow>ns. gpu (sock n))\<rparr>, w')
          \<and> trace w' = trace w @ concat (map (stats_exchange w) ns)
          \<and> (\<forall>n\<in>set ns. pending w' (sock n) = rest (sock n))
          \<and> (\<forall>h. h \<notin> sock ` set ns \<longrightarrow> inbox w' h = inbox w h)"
  using assms
proof (induction ns arbitrary: ti tg w)
  case Nil
  then show ?case by simp
next
  case (Cons n ns)
  let ?w2 = "after_stats w n"
  from Cons.prems(2) have rn: "stats_ready rid ins gpu rest w n" by simp
  then have step: "get_telemetry_loop (n # ns) ti tg w =
      get_telemetry_loop ns (ti + ins (sock n)) (tg + gpu (sock n)) ?w2"
    by (intro get_stats_step[where rid = "rid (sock n)" and rest = "rest (sock n)"])
       (simp_all add: stats_ready_def stats_reply_def)
  have nn: "sock n \<notin> sock ` set ns" using Cons.prems(1) by simp
  have other: "sock m \<noteq> sock n" if "m \<in> set ns" for m
  proof
    assume "sock m = sock n"
    moreover from that have "sock m \<in> sock ` set ns" by (rule imageI)
    ultimately show False using nn by simp
  qed
  have same: "inbox ?w2 (sock m) = inbox w (sock m)" if "m \<in> set ns" for m
    using other[OF that] by (simp add: after_stats_facts)
  have ready2: "\<forall>m\<in>set ns. stats_ready rid ins gpu rest ?w2 m"
    using Cons.prems(2) same by (simp add: stats_ready_def open_sock_def pending_def)
  have d2: "distinct (map sock ns)" using Cons.prems(1) by simp
  from Cons.IH[OF d2 ready2, of "ti + ins (sock n)" "tg + gpu (sock n)"] obtain w' where
    r: "get_telemetry_loop ns (ti + ins (sock n)) (tg + gpu (sock n)) ?w2 =
          (Inr \<lparr>instructions = ti + ins (sock n) + (\<Sum>n\<leftarrow>ns. ins (sock n)),
                gpu_offloads = tg + gpu (sock n) + (\<Sum>n\<leftarrow>ns. gpu (sock n))\<rparr>, w')"
    and t: "trace w' = trace ?w2 @ concat (map (stats_exchange ?w2) ns)"
    and p: "\<forall>m\<in>set ns. pending w' (sock m) = rest (sock m)"
    and u: "\<forall>h. h \<notin> sock ` set ns \<longrightarrow> inbox w' h = inbox ?w2 h"
    by blast
  have ex: "map (stats_exchange ?w2) ns = map (stats_exchange w) ns"
    by (rule map_cong) (simp_all add: stats_exchange_def same)
  have pn: "pending w' (sock n) = rest (sock n)"
  proof -
    have "pending w' (sock n) = pending ?w2 (sock n)" using u nn by (simp add: pending_def)
    also have "\<dots> = drop 28 (pending w (sock n))" by (rule after_stats_facts)
    also have "\<dots> = rest (sock n)" using rn by (simp add: stats_ready_def)
    finally show ?thesis .
  qed
  have A: "get_telemetry_loop (n # ns) ti tg w =
      (Inr \<lparr>instructions = ti + (\<Sum>n\<leftarrow>n # ns. ins (sock n)),
            gpu_offloads = tg + (\<Sum>n\<leftarrow>n # ns. gpu (sock n))\<rparr>, w')"
    unfolding step r by (simp add: add.assoc)
  have B: "trace w' = trace w @ concat (map (stats_exchange w) (n # ns))"
    by (simp add: t ex after_stats_facts)
  have C: "\<forall>m\<in>set (n # ns). pending w' (sock m) = rest (sock m)" using p pn by simp
  have D: "\<forall>h. h \<notin> sock ` set (n # ns) \<longrightarrow> inbox w' h = inbox w h"
    using u by (auto simp: after_stats_facts)
  from A B C D show ?case by blast
qed

lemma coalesce_recvs:
  "starts_sent tail \<Longrightarrow>
   coalesce (Recvd s a # map (Recvd s) chs @ tail) = Recvd s (a @ concat chs) # coalesce tail"
proof (induction chs arbitrary: a)
  case Nil
  then show ?case by (cases tail rule: starts_sent.cases) simp_all
next
  case (Cons ch chs)
  then show ?case by simp
qed


lemma starts_sent_exchanges: "starts_sent (concat (map (stats_exchange w) ns))"
  by (cases ns) (simp_all add: stats_exchange_def)

lemma take_12_16: "take 12 xs @ take 16 (drop 12 xs) = take 28 xs"
proof -
  have "take 28 xs = take (12 + 16) xs" by simp
  also have "\<dots> = take 12 xs @ take 16 (drop 12 xs)" by (rule take_add)
  finally show ?thesis by simp
qed

lemma coalesce_exchange:
  assumes "stats_ready rid ins gpu rest w n" and "starts_sent tail"
  shows "coalesce (stats_exchange w n @ tail) =
           Sent (sock n) (request_frame CMD_GET_STATS []) #
           Recvd (sock n) (stats_reply (rid (sock n)) (ins (sock n)) (gpu (sock n))) #
           coalesce tail"
proof -
  let ?pk = "inbox w (sock n)"
  let ?ch = "read_chunks 12 ?pk @ read_chunks 16 (rest_packets 12 ?pk)"
  let ?reply = "stats_reply (rid (sock n)) (ins (sock n)) (gpu (sock n))"
  have P: "concat ?pk = ?reply @ rest (sock n)"
    using assms(1) by (simp add: stats_ready_def pending_def)
  have "concat ?ch = take 12 (concat ?pk) @ take 16 (drop 12 (concat ?pk))"
    by (simp add: concat_read_chunks concat_rest_packets)
  also have "\<dots> = take 28 (concat ?pk)" by (rule take_12_16)
  also have "\<dots> = ?reply" by (simp add: P)
  finally have cc: "concat ?ch = ?reply" .
  have "length (concat ?ch) = 28" by (simp only: cc length_stats_reply)
  then have "?ch \<noteq> []" by auto
  then obtain c0 chs where ch: "?ch = c0 # chs" by (cases ?ch) auto
  have "stats_exchange w n @ tail =
        Sent (sock n) (request_frame CMD_GET_STATS []) # map (Recvd (sock n)) ?ch @ tail"
    by (simp add: stats_exchange_def)
  also have "\<dots> = Sent (sock n) (request_frame CMD_GET_STATS []) #
        Recvd (sock n) c0 # map (Recvd (sock n)) chs @ tail"
    by (simp only: ch list.map append_Cons)
  finally have "coalesce (stats_exchange w n @ tail) =
      Sent (sock n) (request_frame CMD_GET_STATS []) #
      Recvd (sock n) (c0 @ concat chs) # coalesce tail"
    by (simp add: coalesce_recvs[OF assms(2)])
  moreover have "c0 @ concat chs = ?reply" using cc by (simp only: ch concat.simps)
  ultimately show ?thesis by simp
qed

lemma coalesce_exchanges:
  assumes "\<forall>n\<in>set ns. stats_ready rid ins gpu rest w n"
  shows "coalesce (concat (map (stats_exchange w) ns)) =
     concat (map (\<lambda>n. [Sent (sock n) (request_frame CMD_GET_STATS []),
                        Recvd (sock n) (stats_reply (rid (sock n)) (ins (sock n)) (gpu (sock n)))])
                 ns)"
  using assms
proof (induction ns)
  case Nil
  then show ?case by simp
next
  case (Cons n ns)
  from Cons.prems have rn: "stats_ready rid ins gpu rest w n" by simp
  from Cons have IH: "coalesce (concat (map (stats_exchange w) ns)) =
     concat (map (\<lambda>n. [Sent (sock n) (request_frame CMD_GET_STATS []),
                        Recvd (sock n) (stats_reply (rid (sock n)) (ins (sock n)) (gpu (sock n)))])
                 ns)" by simp
  show ?case
    using coalesce_exchange[OF rn starts_sent_exchanges[of w ns]] by (simp add: IH)
qed

text \<open>
  C6. \<^verbatim>\<open>get_telemetry\<close> goes through the connected nodes in order; to each it sends
  the \<^verbatim>\<open>GET_STATS\<close> request with an empty payload and then reads that node's
  response before it turns to the next node. When every node answers with status 200 and
  a 16-byte payload of two u64 little-endian fields, the result is the sum over all nodes
  of the first field as \<^verbatim>\<open>instructions\<close> and of the second as
  \<^verbatim>\<open>gpu_offloads\<close>; the cluster is unchanged and each socket is left with the bytes
  that followed its response.
\<close>

theorem get_telemetry_sums:
  assumes "distinct (map sock (nodes c))"
    and "\<forall>n\<in>set (nodes c). stats_ready rid ins gpu rest w n"
  shows "fst (get_telemetry c w) =
           Inr \<lparr>instructions = (\<Sum>n\<leftarrow>nodes c. ins (sock n)),
                gpu_offloads = (\<Sum>n\<leftarrow>nodes c. gpu (sock n))\<rparr>
       \<and> fst (snd (get_telemetry c w)) = c
       \<and> take (length (trace w)) (trace (snd (snd (get_telemetry c w)))) = trace w
       \<and> coalesce (drop (length (trace w)) (trace (snd (snd (get_telemetry c w))))) =
           concat (map (\<lambda>n. [Sent (sock n) (u32le 0x56435055 @ u32le 6 @ u32le 0 @ u32le 0),
                              Recvd (sock n)
                                (u32le 200 @ u32le (rid (sock n)) @ u32le 16 @
                                 u64le (ins (sock n)) @ u64le (gpu (sock n)))])
                       (nodes c))
       \<and> (\<forall>n\<in>set (nodes c). pending (snd (snd (get_telemetry c w))) (sock n) = rest (sock n))"
proof -
  from get_telemetry_loop_ok[OF assms, of 0 0] obtain w' where
    r: "get_telemetry_loop (nodes c) 0 0 w =
          (Inr \<lparr>instructions = (\<Sum>n\<leftarrow>nodes c. ins (sock n)),
                gpu_offloads = (\<Sum>n\<leftarrow>nodes c. gpu (sock n))\<rparr>, w')"
    and t: "trace w' = trace w @ concat (map (stats_exchange w) (nodes c))"
    and p: "\<forall>n\<in>set (nodes c). pending w' (sock n) = rest (sock n)"
    by auto
  have g: "get_telemetry c w =
          (Inr \<lparr>instructions = (\<Sum>n\<leftarrow>nodes c. ins (sock n)),
                gpu_offloads = (\<Sum>n\<leftarrow>nodes c. gpu (sock n))\<rparr>, c, w')"
    by (simp add: get_telemetry_def r)
  have fr: "request_frame CMD_GET_STATS [] = u32le 0x56435055 @ u32le 6 @ u32le 0 @ u32le 0"
    by (simp add: request_frame_def MAGIC_def CMD_GET_STATS_def)
  have rp: "\<And>x a b. stats_reply x a b = u32le 200 @ u32le x @ u32le 16 @ u64le a @ u64le b"
    by (simp add: stats_reply_def response_bytes_def)
  show ?thesis
    using p coalesce_exchanges[OF assms(2)]
    by (simp add: g t fr rp)
qed


theorem get_telemetry_sums_witness:
  "fst (get_telemetry ex_cluster
          (ex_net [u32le 200 @ u32le 0, u32le 16 @ u64le 10 @ u64le 1]
                  [u32le 200 @ u32le 0 @ u32le 16 @ u64le 20 @ u64le 2])) =
     Inr \<lparr>instructions = 30, gpu_offloads = 3\<rparr>"
proof -
  let ?N = "ex_net [u32le 200 @ u32le 0, u32le 16 @ u64le 10 @ u64le 1]
                  [u32le 200 @ u32le 0 @ u32le 16 @ u64le 20 @ u64le 2]"
  let ?ins = "\<lambda>s::nat. if s = 3 then 10 else (20::int)"
  let ?gpu = "\<lambda>s::nat. if s = 3 then 1 else (2::int)"
  have d: "distinct (map sock (nodes ex_cluster))" by (simp add: ex_cluster_def)
  have r: "\<forall>n\<in>set (nodes ex_cluster). stats_ready (\<lambda>s. 0) ?ins ?gpu (\<lambda>s. []) ?N n"
    by (simp add: ex_cluster_def ex_net_def stats_ready_def open_sock_def pending_def
          stats_reply_def response_bytes_def)
  from get_telemetry_sums[OF d r] show ?thesis by (simp add: ex_cluster_def)
qed

end
